theory Spec2Isabelle
  imports Main "HOL-Library.FSet" "HOL-Library.Product_Lexorder"
begin

section \<open>The Minesweeper knowledge-based agent (minesweeper.py)\<close>

text \<open>
  A cell is a pair \<open>(i, j)\<close> of Python integers. A Python \<open>set\<close> of cells is always
  finite, so it is a finite set here; \<open>len\<close> is \<open>fcard\<close>.
\<close>

type_synonym cell = "int \<times> int"

subsection \<open>class Sentence\<close>

text \<open>
  \<open>Sentence.__init__\<close> stores a copy of the cell set and the count; \<open>__eq__\<close> compares
  both fields, which is the equality of the record.
\<close>

record sentence =
  cells :: "cell fset"
  count :: int

definition known_mines :: "sentence \<Rightarrow> cell fset" where
  "known_mines x =
     (if int (fcard (cells x)) = count x \<and> count x \<noteq> 0 then cells x else {||})"

definition known_safes :: "sentence \<Rightarrow> cell fset" where
  "known_safes x = (if count x = 0 then cells x else {||})"

text \<open>\<open>Sentence.mark_mine\<close> and \<open>Sentence.mark_safe\<close>: the object is updated in place.\<close>

definition sentence_mark_mine :: "cell \<Rightarrow> sentence \<Rightarrow> sentence" where
  "sentence_mark_mine c x =
     (if c |\<in>| cells x then x\<lparr>cells := cells x |-| {|c|}, count := count x - 1\<rparr> else x)"

definition sentence_mark_safe :: "cell \<Rightarrow> sentence \<Rightarrow> sentence" where
  "sentence_mark_safe c x =
     (if c |\<in>| cells x then x\<lparr>cells := cells x |-| {|c|}\<rparr> else x)"

subsection \<open>class MinesweeperAI\<close>

record ai =
  height :: int
  width :: int
  moves_made :: "cell fset"
  mines :: "cell fset"
  safes :: "cell fset"
  knowledge :: "sentence list"

definition init_ai :: "int \<Rightarrow> int \<Rightarrow> ai" where
  "init_ai h w =
     \<lparr>height = h, width = w, moves_made = {||}, mines = {||}, safes = {||}, knowledge = []\<rparr>"

definition mark_mine :: "cell \<Rightarrow> ai \<Rightarrow> ai" where
  "mark_mine c s =
     s\<lparr>mines := finsert c (mines s), knowledge := map (sentence_mark_mine c) (knowledge s)\<rparr>"

definition mark_safe :: "cell \<Rightarrow> ai \<Rightarrow> ai" where
  "mark_safe c s =
     s\<lparr>safes := finsert c (safes s), knowledge := map (sentence_mark_safe c) (knowledge s)\<rparr>"

subsubsection \<open>add_knowledge, steps 1 to 3: the new sentence\<close>

text \<open>
  The two nested \<open>range(i - 1, i + 2)\<close>, \<open>range(j - 1, j + 2)\<close> loops visit the cells
  around \<open>cell\<close>, skip \<open>cell\<close> itself and keep the cells inside the board.
\<close>

definition nearby :: "int \<Rightarrow> int \<Rightarrow> cell \<Rightarrow> cell list" where
  "nearby h w c =
     [(ni, nj). ni \<leftarrow> [fst c - 1 .. fst c + 1], nj \<leftarrow> [snd c - 1 .. snd c + 1],
        (ni, nj) \<noteq> c, 0 \<le> ni \<and> ni < h \<and> 0 \<le> nj \<and> nj < w]"

definition neighbors :: "ai \<Rightarrow> cell \<Rightarrow> cell fset" where
  "neighbors s c =
     fset_of_list (filter (\<lambda>n. \<not> (n |\<in>| safes s \<or> n |\<in>| mines s)) (nearby (height s) (width s) c))"

definition adjust_count :: "ai \<Rightarrow> cell \<Rightarrow> int \<Rightarrow> int" where
  "adjust_count s c n = n - int (length (filter (\<lambda>n. n |\<in>| mines s) (nearby (height s) (width s) c)))"

definition add_sentence :: "ai \<Rightarrow> cell \<Rightarrow> int \<Rightarrow> ai" where
  "add_sentence s c n =
     (let s1 = mark_safe c (s\<lparr>moves_made := finsert c (moves_made s)\<rparr>);
          new_sentence = \<lparr>cells = neighbors s1 c, count = adjust_count s1 c n\<rparr>
      in if fcard (neighbors s1 c) > 0
         then s1\<lparr>knowledge := knowledge s1 @ [new_sentence]\<rparr> else s1)"

subsubsection \<open>add_knowledge, steps 4 and 5: one pass of the \<open>while updated\<close> loop\<close>

definition collect_safes :: "sentence list \<Rightarrow> cell fset" where
  "collect_safes kb = fold (\<lambda>x acc. acc |\<union>| known_safes x) kb {||}"

definition collect_mines :: "sentence list \<Rightarrow> cell fset" where
  "collect_mines kb = fold (\<lambda>x acc. acc |\<union>| known_mines x) kb {||}"

text \<open>
  \<open>for safe in safes_to_add: if safe not in self.safes: self.mark_safe(safe); updated = True\<close>,
  over the cells in the order the iteration visits them; the flag \<open>updated\<close> is threaded
  through. The same for the mines.
\<close>

fun mark_safes :: "cell list \<Rightarrow> ai \<times> bool \<Rightarrow> ai \<times> bool" where
  "mark_safes [] su = su"
| "mark_safes (c # cs) (s, u) =
     (if c |\<notin>| safes s then mark_safes cs (mark_safe c s, True) else mark_safes cs (s, u))"

fun mark_mines :: "cell list \<Rightarrow> ai \<times> bool \<Rightarrow> ai \<times> bool" where
  "mark_mines [] su = su"
| "mark_mines (c # cs) (s, u) =
     (if c |\<notin>| mines s then mark_mines cs (mark_mine c s, True) else mark_mines cs (s, u))"

text \<open>The body of the two nested loops over the knowledge base, for one pair.\<close>

definition infer_pair :: "sentence list \<Rightarrow> sentence \<Rightarrow> sentence \<Rightarrow> sentence list \<Rightarrow> sentence list" where
  "infer_pair kb sentence1 sentence2 new_sentences =
     (if sentence1 = sentence2 then new_sentences
      else if cells sentence1 \<noteq> {||} \<and> cells sentence1 |\<subseteq>| cells sentence2 then
        (let new_sentence = \<lparr>cells = cells sentence2 |-| cells sentence1,
                              count = count sentence2 - count sentence1\<rparr>
         in if new_sentence \<notin> set kb \<and> new_sentence \<notin> set new_sentences
               \<and> fcard (cells new_sentence) > 0
            then new_sentences @ [new_sentence] else new_sentences)
      else new_sentences)"

definition infer_new :: "sentence list \<Rightarrow> sentence list" where
  "infer_new kb =
     fold (\<lambda>sentence1 acc. fold (\<lambda>sentence2 acc'. infer_pair kb sentence1 sentence2 acc') kb acc)
       kb []"

text \<open>
  One pass. A Python set is iterated in an order the language does not fix; the model
  iterates in sorted order, and \<open>mark_safes_order\<close>, \<open>mark_mines_order\<close> below show that
  the order does not change the result.
\<close>

definition closure_pass :: "ai \<Rightarrow> ai \<times> bool" where
  "closure_pass s =
     (let safes_to_add = collect_safes (knowledge s);
          mines_to_add = collect_mines (knowledge s);
          su1 = mark_safes (sorted_list_of_fset safes_to_add) (s, False);
          su2 = mark_mines (sorted_list_of_fset mines_to_add) su1;
          new_sentences = infer_new (knowledge (fst su2))
      in if new_sentences \<noteq> []
         then ((fst su2)\<lparr>knowledge := knowledge (fst su2) @ new_sentences\<rparr>, True)
         else su2)"

text \<open>
  The \<open>while updated\<close> loop: \<open>updated\<close> starts \<open>True\<close>, so the body runs at least once,
  and it runs again as long as a pass sets the flag. The loop has no bound of its own: a
  run that never leaves it is the value \<open>None\<close>.
\<close>

partial_function (option) closure :: "ai \<Rightarrow> ai option" where
  "closure s =
     (if snd (closure_pass s) then closure (fst (closure_pass s))
      else Some (fst (closure_pass s)))"

definition add_knowledge :: "ai \<Rightarrow> cell \<Rightarrow> int \<Rightarrow> ai option" where
  "add_knowledge s c n =
     (case closure (add_sentence s c n) of
        None \<Rightarrow> None
      | Some s' \<Rightarrow> Some (s'\<lparr>knowledge := filter (\<lambda>x. cells x \<noteq> {||}) (knowledge s')\<rparr>))"

subsubsection \<open>make_safe_move and make_random_move\<close>

text \<open>
  Both return a cell or \<open>None\<close> and assign nothing. Which cell is returned depends on the
  iteration order of a set, or on \<open>random.choice\<close>; the model is the relation between the
  state before, the value returned and the state after.
\<close>

definition make_safe_move :: "ai \<Rightarrow> cell option \<times> ai \<Rightarrow> bool" where
  "make_safe_move s r =
     (snd r = s \<and>
      (case fst r of
         Some c \<Rightarrow> c |\<in>| safes s \<and> c |\<notin>| moves_made s
       | None \<Rightarrow> safes s |\<subseteq>| moves_made s))"

definition all_moves :: "ai \<Rightarrow> cell fset" where
  "all_moves s = fset_of_list [(i, j). i \<leftarrow> [0 .. height s - 1], j \<leftarrow> [0 .. width s - 1]]"

definition choices :: "ai \<Rightarrow> cell fset" where
  "choices s = all_moves s |-| moves_made s |-| mines s"

definition make_random_move :: "ai \<Rightarrow> cell option \<times> ai \<Rightarrow> bool" where
  "make_random_move s r =
     (snd r = s \<and>
      (case fst r of
         Some c \<Rightarrow> c |\<in>| choices s
       | None \<Rightarrow> choices s = {||}))"

subsection \<open>class Minesweeper: the count the board reports\<close>

text \<open>
  The board is the set of its mines: \<open>self.board[i][j]\<close> is \<open>True\<close> exactly for the cells
  of \<open>self.mines\<close>. \<open>nearby_mines\<close> runs the same two loops as \<open>add_knowledge\<close> and counts
  the mines among the cells around \<open>cell\<close> that are inside the board.
\<close>

definition nearby_mines :: "int \<Rightarrow> int \<Rightarrow> cell fset \<Rightarrow> cell \<Rightarrow> int" where
  "nearby_mines h w M c = int (length (filter (\<lambda>n. n |\<in>| M) (nearby h w c)))"

subsection \<open>Notions used to state the properties\<close>

text \<open>
  Marking a whole set of cells at once: what a run of \<open>mark_safe\<close> (of \<open>mark_mine\<close>) over
  the cells of \<open>S\<close> does to one sentence.
\<close>

definition remove_safes :: "cell fset \<Rightarrow> sentence \<Rightarrow> sentence" where
  "remove_safes S x = x\<lparr>cells := cells x |-| S\<rparr>"

definition remove_mines :: "cell fset \<Rightarrow> sentence \<Rightarrow> sentence" where
  "remove_mines S x =
     x\<lparr>cells := cells x |-| S, count := count x - int (fcard (cells x |\<inter>| S))\<rparr>"

text \<open>The sentence the subset rule computes from \<open>sentence1\<close> and \<open>sentence2\<close>.\<close>

definition subtract :: "sentence \<Rightarrow> sentence \<Rightarrow> sentence" where
  "subtract sentence1 sentence2 =
     \<lparr>cells = cells sentence2 |-| cells sentence1, count = count sentence2 - count sentence1\<rparr>"

text \<open>
  A sentence is true of a mine layout \<open>M\<close> when its count is the number of its cells that
  are mines. An agent state is consistent with \<open>M\<close> when no known safe cell is a mine,
  every known mine is one, and every sentence of the knowledge base is true of \<open>M\<close>.
\<close>

definition holds_in :: "cell fset \<Rightarrow> sentence \<Rightarrow> bool" where
  "holds_in M x \<longleftrightarrow> count x = int (fcard (cells x |\<inter>| M))"

definition consistent :: "cell fset \<Rightarrow> ai \<Rightarrow> bool" where
  "consistent M s \<longleftrightarrow>
     safes s |\<inter>| M = {||} \<and> mines s |\<subseteq>| M \<and> (\<forall>x \<in> set (knowledge s). holds_in M x)"

text \<open>
  When the body of the two nested loops adds a sentence for the pair, leaving aside
  whether it is already in \<open>new_sentences\<close>.
\<close>

definition fires :: "sentence list \<Rightarrow> sentence \<Rightarrow> sentence \<Rightarrow> bool" where
  "fires kb a b \<longleftrightarrow> cells a \<noteq> {||} \<and> cells a |\<subset>| cells b \<and> subtract a b \<notin> set kb"

text \<open>The state after the two marking loops of a pass.\<close>

definition marked :: "ai \<Rightarrow> ai" where
  "marked s =
     s\<lparr>safes := safes s |\<union>| collect_safes (knowledge s),
       mines := mines s |\<union>| collect_mines (knowledge s),
       knowledge := map (remove_mines (collect_mines (knowledge s) |-| mines s))
                     (map (remove_safes (collect_safes (knowledge s) |-| safes s)) (knowledge s))\<rparr>"

text \<open>The cells the sentences of a knowledge base mention.\<close>

definition kb_cells :: "sentence list \<Rightarrow> cell set" where
  "kb_cells kb = (\<Union>x \<in> set kb. fset (cells x))"

text \<open>A run of \<open>add_knowledge\<close> calls, one per observation \<open>(cell, count)\<close>.\<close>

fun add_knowledge_all :: "ai \<Rightarrow> (cell \<times> int) list \<Rightarrow> ai option" where
  "add_knowledge_all s [] = Some s"
| "add_knowledge_all s ((c, n) # obs) =
     (case add_knowledge s c n of None \<Rightarrow> None | Some s' \<Rightarrow> add_knowledge_all s' obs)"

text \<open>
  The knowledge base of the first test scenario of the subset rule: \<open>{c1, c2} = 1\<close> and
  \<open>{c1, c2, c3} = 2\<close>, nothing known yet.
\<close>

definition scenario1 :: "cell \<Rightarrow> cell \<Rightarrow> cell \<Rightarrow> ai \<Rightarrow> ai" where
  "scenario1 c1 c2 c3 s = s\<lparr>mines := {||}, safes := {||}, knowledge := [\<lparr>cells = {|c1, c2|}, count = 1\<rparr>, \<lparr>cells = {|c1, c2, c3|}, count = 2\<rparr>]\<rparr>"

text \<open>
  A run on a 2 x 3 board: the state after the observation \<open>(0, 1) \<mapsto> 2\<close>, and the state
  after the further observation \<open>(1, 1) \<mapsto> 6\<close>.
\<close>

definition board1 :: ai where
  "board1 = \<lparr>height = 2, width = 3, moves_made = {|(0, 1)|}, mines = {||}, safes = {|(0, 1)|},
     knowledge = [\<lparr>cells = {|(0, 0), (0, 2), (1, 0), (1, 1), (1, 2)|}, count = 2\<rparr>]\<rparr>"

definition board2 :: ai where
  "board2 = \<lparr>height = 2, width = 3, moves_made = {|(1, 1), (0, 1)|}, mines = {||},
     safes = {|(1, 1), (0, 1)|},
     knowledge = [\<lparr>cells = {|(0, 0), (0, 2), (1, 0), (1, 2)|}, count = 2\<rparr>,
                  \<lparr>cells = {|(0, 0), (0, 2), (1, 0), (1, 2)|}, count = 6\<rparr>]\<rparr>"

text \<open>
  The knowledge bases the loop runs through after the third observation \<open>(0, 0) \<mapsto> 3\<close> of
  that run: the two sentences over \<open>{(0, 2), (1, 0), (1, 2)}\<close> with counts 2 and 6, and
  sentences over \<open>{(1, 0)}\<close> and over \<open>{(0, 2), (1, 2)}\<close> whose counts are 3 modulo 4.
\<close>

definition runaway_shape :: "sentence \<Rightarrow> bool" where
  "runaway_shape x \<longleftrightarrow>
     (cells x = {|(0, 2), (1, 0), (1, 2)|} \<and> (count x = 2 \<or> count x = 6)) \<or>
     ((cells x = {|(1, 0)|} \<or> cells x = {|(0, 2), (1, 2)|}) \<and> count x mod 4 = 3)"

definition runaway :: "ai \<Rightarrow> bool" where
  "runaway s \<longleftrightarrow>
     \<lparr>cells = {|(0, 2), (1, 0), (1, 2)|}, count = 2\<rparr> \<in> set (knowledge s) \<and>
     \<lparr>cells = {|(0, 2), (1, 0), (1, 2)|}, count = 6\<rparr> \<in> set (knowledge s) \<and>
     (\<exists>k. \<lparr>cells = {|(1, 0)|}, count = k\<rparr> \<in> set (knowledge s)) \<and>
     (\<forall>x \<in> set (knowledge s). runaway_shape x)"

text \<open>The bound the specification asks of every sentence.\<close>

definition in_range :: "sentence \<Rightarrow> bool" where
  "in_range x \<longleftrightarrow> 0 \<le> count x \<and> count x \<le> int (fcard (cells x))"

text \<open>
  Observations that tell the truth about a mine layout \<open>M\<close>: the cell revealed is not a
  mine and the count is the one the board reports.
\<close>

definition truthful :: "cell fset \<Rightarrow> ai \<Rightarrow> (cell \<times> int) list \<Rightarrow> bool" where
  "truthful M s obs \<longleftrightarrow>
     (\<forall>(c, n) \<in> set obs. c |\<notin>| M \<and> n = nearby_mines (height s) (width s) M c)"

text \<open>
  A run on a 2 x 2 board: the state after the observation \<open>(0, 0) \<mapsto> 2\<close>, and the state
  after the further observation \<open>(0, 1) \<mapsto> 0\<close>.
\<close>

definition square1 :: ai where
  "square1 = \<lparr>height = 2, width = 2, moves_made = {|(0, 0)|}, mines = {||}, safes = {|(0, 0)|},
     knowledge = [\<lparr>cells = {|(0, 1), (1, 0), (1, 1)|}, count = 2\<rparr>]\<rparr>"

definition square2 :: ai where
  "square2 = \<lparr>height = 2, width = 2, moves_made = {|(0, 1), (0, 0)|}, mines = {|(1, 0), (1, 1)|},
     safes = {|(1, 0), (1, 1), (0, 1), (0, 0)|}, knowledge = []\<rparr>"

text \<open>A 1 x 3 board whose only mine is \<open>(0, 2)\<close>, with one true sentence.\<close>

definition row0 :: ai where
  "row0 = (init_ai 1 3)\<lparr>knowledge := [\<lparr>cells = {|(0, 1), (0, 2)|}, count = 1\<rparr>]\<rparr>"

text \<open>
  A knowledge base in which a mine is resolved before the subset rule is tried: a 1 x 5
  board with mines \<open>(0, 1)\<close> and \<open>(0, 3)\<close>, holding \<open>{(0, 1), (0, 2)} = 1\<close>,
  \<open>{(0, 1), (0, 2), (0, 3), (0, 4)} = 2\<close> and \<open>{(0, 3)} = 1\<close>, and the states after the first
  and after the second pass of the loop.
\<close>

definition preempted0 :: ai where
  "preempted0 = (init_ai 1 5)\<lparr>knowledge :=
     [\<lparr>cells = {|(0, 1), (0, 2)|}, count = 1\<rparr>,
      \<lparr>cells = {|(0, 1), (0, 2), (0, 3), (0, 4)|}, count = 2\<rparr>,
      \<lparr>cells = {|(0, 3)|}, count = 1\<rparr>]\<rparr>"

definition preempted1 :: ai where
  "preempted1 = (init_ai 1 5)\<lparr>mines := {|(0, 3)|}, knowledge :=
     [\<lparr>cells = {|(0, 1), (0, 2)|}, count = 1\<rparr>,
      \<lparr>cells = {|(0, 1), (0, 2), (0, 4)|}, count = 1\<rparr>,
      \<lparr>cells = {||}, count = 0\<rparr>,
      \<lparr>cells = {|(0, 4)|}, count = 0\<rparr>]\<rparr>"

definition preempted2 :: ai where
  "preempted2 = (init_ai 1 5)\<lparr>mines := {|(0, 3)|}, safes := {|(0, 4)|}, knowledge :=
     [\<lparr>cells = {|(0, 1), (0, 2)|}, count = 1\<rparr>,
      \<lparr>cells = {|(0, 1), (0, 2)|}, count = 1\<rparr>,
      \<lparr>cells = {||}, count = 0\<rparr>,
      \<lparr>cells = {||}, count = 0\<rparr>]\<rparr>"

text \<open>
  The two sentences of the first scenario together with \<open>{(0, 3)} = 0\<close>, and the states
  after the first and after the second pass of the loop.
\<close>

definition contrary0 :: ai where
  "contrary0 = (init_ai 1 4)\<lparr>knowledge :=
     [\<lparr>cells = {|(0, 1), (0, 2)|}, count = 1\<rparr>,
      \<lparr>cells = {|(0, 1), (0, 2), (0, 3)|}, count = 2\<rparr>,
      \<lparr>cells = {|(0, 3)|}, count = 0\<rparr>]\<rparr>"

definition contrary1 :: ai where
  "contrary1 = (init_ai 1 4)\<lparr>safes := {|(0, 3)|}, knowledge :=
     [\<lparr>cells = {|(0, 1), (0, 2)|}, count = 1\<rparr>,
      \<lparr>cells = {|(0, 1), (0, 2)|}, count = 2\<rparr>,
      \<lparr>cells = {||}, count = 0\<rparr>]\<rparr>"

definition contrary2 :: ai where
  "contrary2 = (init_ai 1 4)\<lparr>mines := {|(0, 1), (0, 2)|}, safes := {|(0, 3)|}, knowledge :=
     [\<lparr>cells = {||}, count = - 1\<rparr>,
      \<lparr>cells = {||}, count = 0\<rparr>,
      \<lparr>cells = {||}, count = 0\<rparr>]\<rparr>"

text \<open>
  A run on a 2 x 3 board that reaches the subset rule through \<open>add_knowledge\<close>: the state
  after the observation \<open>(1, 0) \<mapsto> 1\<close>, the state after the further observation
  \<open>(0, 0) \<mapsto> 1\<close>, the state the loop starts from for a third observation \<open>(0, 2) \<mapsto> n\<close>,
  and the states that call returns for \<open>n = 2\<close> and for \<open>n = 1\<close>.
\<close>

definition corner1 :: ai where
  "corner1 = \<lparr>height = 2, width = 3, moves_made = {|(1, 0)|}, mines = {||}, safes = {|(1, 0)|},
     knowledge = [\<lparr>cells = {|(0, 0), (0, 1), (1, 1)|}, count = 1\<rparr>]\<rparr>"

definition corner2 :: ai where
  "corner2 = \<lparr>height = 2, width = 3, moves_made = {|(0, 0), (1, 0)|}, mines = {||},
     safes = {|(0, 0), (1, 0)|},
     knowledge = [\<lparr>cells = {|(0, 1), (1, 1)|}, count = 1\<rparr>,
                  \<lparr>cells = {|(0, 1), (1, 1)|}, count = 1\<rparr>]\<rparr>"

definition corner3 :: "int \<Rightarrow> ai" where
  "corner3 n = \<lparr>height = 2, width = 3, moves_made = {|(0, 2), (0, 0), (1, 0)|}, mines = {||},
     safes = {|(0, 2), (0, 0), (1, 0)|},
     knowledge = [\<lparr>cells = {|(0, 1), (1, 1)|}, count = 1\<rparr>,
                  \<lparr>cells = {|(0, 1), (1, 1)|}, count = 1\<rparr>,
                  \<lparr>cells = {|(0, 1), (1, 1), (1, 2)|}, count = n\<rparr>]\<rparr>"

definition corner_mine :: ai where
  "corner_mine = \<lparr>height = 2, width = 3, moves_made = {|(0, 2), (0, 0), (1, 0)|},
     mines = {|(1, 2)|}, safes = {|(0, 2), (0, 0), (1, 0)|},
     knowledge = [\<lparr>cells = {|(0, 1), (1, 1)|}, count = 1\<rparr>,
                  \<lparr>cells = {|(0, 1), (1, 1)|}, count = 1\<rparr>,
                  \<lparr>cells = {|(0, 1), (1, 1)|}, count = 1\<rparr>]\<rparr>"

definition corner_safe :: ai where
  "corner_safe = \<lparr>height = 2, width = 3, moves_made = {|(0, 2), (0, 0), (1, 0)|},
     mines = {||}, safes = {|(1, 2), (0, 2), (0, 0), (1, 0)|},
     knowledge = [\<lparr>cells = {|(0, 1), (1, 1)|}, count = 1\<rparr>,
                  \<lparr>cells = {|(0, 1), (1, 1)|}, count = 1\<rparr>,
                  \<lparr>cells = {|(0, 1), (1, 1)|}, count = 1\<rparr>]\<rparr>"

section \<open>Properties\<close>

subsection \<open>The loops over sets do not depend on the iteration order\<close>

lemma collect_safes_iff: "c |\<in>| collect_safes kb \<longleftrightarrow> (\<exists>x \<in> set kb. c |\<in>| known_safes x)"
proof -
  have "c |\<in>| fold (\<lambda>x acc. acc |\<union>| known_safes x) kb acc \<longleftrightarrow>
        c |\<in>| acc \<or> (\<exists>x \<in> set kb. c |\<in>| known_safes x)" for acc
    by (induction kb arbitrary: acc) auto
  then show ?thesis by (simp add: collect_safes_def)
qed

lemma collect_mines_iff: "c |\<in>| collect_mines kb \<longleftrightarrow> (\<exists>x \<in> set kb. c |\<in>| known_mines x)"
proof -
  have "c |\<in>| fold (\<lambda>x acc. acc |\<union>| known_mines x) kb acc \<longleftrightarrow>
        c |\<in>| acc \<or> (\<exists>x \<in> set kb. c |\<in>| known_mines x)" for acc
    by (induction kb arbitrary: acc) auto
  then show ?thesis by (simp add: collect_mines_def)
qed

lemma sentence_mark_safe_remove: "sentence_mark_safe c x = remove_safes {|c|} x"
  by (simp add: sentence_mark_safe_def remove_safes_def)

lemma finter_single_in: "c |\<in>| A \<Longrightarrow> A |\<inter>| {|c|} = {|c|}"
  by auto

lemma finter_single_notin: "c |\<notin>| A \<Longrightarrow> A |\<inter>| {|c|} = {||}"
  by auto

lemma sentence_mark_mine_remove: "sentence_mark_mine c x = remove_mines {|c|} x"
  by (simp add: sentence_mark_mine_def remove_mines_def finter_single_in finter_single_notin fcard_finsert_if fcard_fempty)

lemma remove_safes_comp: "remove_safes T (remove_safes S x) = remove_safes (S |\<union>| T) x"
proof -
  have "cells x |-| S |-| T = cells x |-| (S |\<union>| T)" by auto
  then show ?thesis by (simp add: remove_safes_def)
qed

lemma remove_mines_comp: "remove_mines T (remove_mines S x) = remove_mines (S |\<union>| T) x"
proof -
  have 1: "cells x |-| S |-| T = cells x |-| (S |\<union>| T)" by auto
  have 2: "cells x |\<inter>| (S |\<union>| T) = (cells x |\<inter>| S) |\<union>| ((cells x |-| S) |\<inter>| T)" by auto
  have 3: "(cells x |\<inter>| S) |\<inter>| ((cells x |-| S) |\<inter>| T) = {||}" by auto
  have "fcard (cells x |\<inter>| (S |\<union>| T)) = fcard (cells x |\<inter>| S) + fcard ((cells x |-| S) |\<inter>| T)"
    unfolding 2 using 3 by (rule fcard_funion_disjoint)
  then show ?thesis using 1 by (simp add: remove_mines_def)
qed

lemma mark_safes_closed:
  "mark_safes cs (s, u) =
     (s\<lparr>safes := safes s |\<union>| fset_of_list cs,
        knowledge := map (remove_safes (fset_of_list cs |-| safes s)) (knowledge s)\<rparr>,
      u \<or> \<not> fset_of_list cs |\<subseteq>| safes s)"
proof (induction cs arbitrary: s u)
  case Nil
  have "map (remove_safes {||}) (knowledge s) = knowledge s"
    by (rule map_idI) (simp add: remove_safes_def)
  then show ?case by simp
next
  case (Cons c cs)
  show ?case
  proof (cases "c |\<in>| safes s")
    case True
    then have "finsert c (fset_of_list cs) |-| safes s = fset_of_list cs |-| safes s"
      and "safes s |\<union>| finsert c (fset_of_list cs) = safes s |\<union>| fset_of_list cs"
      by auto
    with True show ?thesis by (simp add: Cons.IH)
  next
    case False
    then have a: "finsert c (fset_of_list cs |-| finsert c (safes s)) = finsert c (fset_of_list cs) |-| safes s"
      and b: "finsert c (safes s) |\<union>| fset_of_list cs = safes s |\<union>| finsert c (fset_of_list cs)"
      by auto
    from False show ?thesis
      by (simp add: Cons.IH mark_safe_def sentence_mark_safe_remove[abs_def] remove_safes_comp comp_def a b)
  qed
qed

lemma mark_mines_closed:
  "mark_mines cs (s, u) =
     (s\<lparr>mines := mines s |\<union>| fset_of_list cs,
        knowledge := map (remove_mines (fset_of_list cs |-| mines s)) (knowledge s)\<rparr>,
      u \<or> \<not> fset_of_list cs |\<subseteq>| mines s)"
proof (induction cs arbitrary: s u)
  case Nil
  have "map (remove_mines {||}) (knowledge s) = knowledge s"
    by (rule map_idI) (simp add: remove_mines_def fcard_fempty)
  then show ?case by simp
next
  case (Cons c cs)
  show ?case
  proof (cases "c |\<in>| mines s")
    case True
    then have "finsert c (fset_of_list cs) |-| mines s = fset_of_list cs |-| mines s"
      and "mines s |\<union>| finsert c (fset_of_list cs) = mines s |\<union>| fset_of_list cs"
      by auto
    with True show ?thesis by (simp add: Cons.IH)
  next
    case False
    then have a: "finsert c (fset_of_list cs |-| finsert c (mines s)) = finsert c (fset_of_list cs) |-| mines s"
      and b: "finsert c (mines s) |\<union>| fset_of_list cs = mines s |\<union>| finsert c (fset_of_list cs)"
      by auto
    from False show ?thesis
      by (simp add: Cons.IH mark_mine_def sentence_mark_mine_remove[abs_def] remove_mines_comp comp_def a b)
  qed
qed

lemma mark_safes_order:
  "set cs = set ds \<Longrightarrow> mark_safes cs su = mark_safes ds su"
  by (cases su) (simp add: mark_safes_closed fset_of_list.abs_eq)

lemma mark_mines_order:
  "set cs = set ds \<Longrightarrow> mark_mines cs su = mark_mines ds su"
  by (cases su) (simp add: mark_mines_closed fset_of_list.abs_eq)

subsection \<open>The subset rule and one pass in closed form\<close>

lemma infer_pair_eq:
  "infer_pair kb a b acc =
     (if fires kb a b \<and> subtract a b \<notin> set acc then acc @ [subtract a b] else acc)"
proof -
  have 1: "0 < fcard (cells b |-| cells a) \<longleftrightarrow> \<not> cells b |\<subseteq>| cells a"
    by (simp add: zero_less_iff_neq_zero)
  have 2: "cells a |\<subseteq>| cells b \<and> \<not> cells b |\<subseteq>| cells a \<longleftrightarrow> cells a |\<subset>| cells b"
    by auto
  have 3: "cells a |\<subset>| cells b \<Longrightarrow> a \<noteq> b"
    by auto
  show ?thesis
    using 2 3 by (auto simp: infer_pair_def fires_def subtract_def Let_def 1)
qed

lemma infer_pair_set:
  "set (infer_pair kb a b acc) = set acc \<union> (if fires kb a b then {subtract a b} else {})"
  by (auto simp: infer_pair_eq)

lemma infer_inner_set:
  "set (fold (\<lambda>b acc'. infer_pair kb a b acc') ys acc) =
     set acc \<union> {subtract a b | b. b \<in> set ys \<and> fires kb a b}"
  by (induction ys arbitrary: acc) (auto simp: infer_pair_set split: if_splits)

lemma infer_outer_set:
  "set (fold (\<lambda>a acc. fold (\<lambda>b acc'. infer_pair kb a b acc') ys acc) xs acc) =
     set acc \<union> {subtract a b | a b. a \<in> set xs \<and> b \<in> set ys \<and> fires kb a b}"
  by (induction xs arbitrary: acc) (auto simp: infer_inner_set)

lemma set_infer_new:
  "set (infer_new kb) = {subtract a b | a b. a \<in> set kb \<and> b \<in> set kb \<and> fires kb a b}"
  by (simp add: infer_new_def infer_outer_set)

lemma closure_pass_eq:
  "closure_pass s =
     (if infer_new (knowledge (marked s)) \<noteq> []
      then ((marked s)\<lparr>knowledge := knowledge (marked s) @ infer_new (knowledge (marked s))\<rparr>, True)
      else (marked s, \<not> collect_safes (knowledge s) |\<subseteq>| safes s
                       \<or> \<not> collect_mines (knowledge s) |\<subseteq>| mines s))"
  by (simp add: closure_pass_def Let_def mark_safes_closed mark_mines_closed marked_def)

subsection \<open>Sentences that are true of a mine layout stay true\<close>

lemma holds_known_safes: "holds_in M x \<Longrightarrow> known_safes x |\<inter>| M = {||}"
  by (simp add: holds_in_def known_safes_def)

lemma holds_known_mines:
  assumes "holds_in M x" shows "known_mines x |\<subseteq>| M"
proof (cases "int (fcard (cells x)) = count x \<and> count x \<noteq> 0")
  case True
  with assms have "fcard (cells x) \<le> fcard (cells x |\<inter>| M)"
    by (simp add: holds_in_def)
  moreover have "cells x |\<inter>| M |\<subseteq>| cells x" by auto
  ultimately have "cells x |\<inter>| M = cells x" by (rule fcard_seteq[rotated])
  then have "cells x |\<subseteq>| M" by auto
  with True show ?thesis by (simp add: known_mines_def)
next
  case False
  then show ?thesis by (auto simp add: known_mines_def)
qed

lemma holds_remove_safes:
  assumes "holds_in M x" "S |\<inter>| M = {||}" shows "holds_in M (remove_safes S x)"
proof -
  from assms(2) have "(cells x |-| S) |\<inter>| M = cells x |\<inter>| M" by auto
  with assms(1) show ?thesis by (simp add: holds_in_def remove_safes_def)
qed

lemma fcard_split:
  assumes "A |\<subseteq>| B" shows "int (fcard ((B |-| A) |\<inter>| M)) = int (fcard (B |\<inter>| M)) - int (fcard (A |\<inter>| M))"
proof -
  from assms have 1: "B |\<inter>| M = ((B |-| A) |\<inter>| M) |\<union>| (A |\<inter>| M)" by auto
  have 2: "((B |-| A) |\<inter>| M) |\<inter>| (A |\<inter>| M) = {||}" by auto
  have "fcard (B |\<inter>| M) = fcard ((B |-| A) |\<inter>| M) + fcard (A |\<inter>| M)"
    by (subst 1) (rule fcard_funion_disjoint[OF 2])
  then show ?thesis by simp
qed

lemma holds_remove_mines:
  assumes "holds_in M x" "S |\<subseteq>| M" shows "holds_in M (remove_mines S x)"
proof -
  have "int (fcard ((cells x |-| (cells x |\<inter>| S)) |\<inter>| M)) =
        int (fcard (cells x |\<inter>| M)) - int (fcard ((cells x |\<inter>| S) |\<inter>| M))"
    by (rule fcard_split) auto
  moreover have "cells x |-| (cells x |\<inter>| S) = cells x |-| S" by auto
  moreover from assms(2) have "(cells x |\<inter>| S) |\<inter>| M = cells x |\<inter>| S" by auto
  ultimately show ?thesis using assms(1) by (simp add: holds_in_def remove_mines_def)
qed

lemma holds_subtract:
  assumes "holds_in M a" "holds_in M b" "cells a |\<subseteq>| cells b"
  shows "holds_in M (subtract a b)"
  using assms fcard_split[OF assms(3), of M] by (simp add: holds_in_def subtract_def)

lemma holds_bounds:
  assumes "holds_in M x" shows "0 \<le> count x \<and> count x \<le> int (fcard (cells x))"
proof -
  have "fcard (cells x |\<inter>| M) \<le> fcard (cells x)" by (rule fcard_mono) auto
  with assms show ?thesis by (simp add: holds_in_def)
qed

lemma collect_safes_disjoint:
  assumes "\<forall>x \<in> set kb. holds_in M x" shows "collect_safes kb |\<inter>| M = {||}"
  using assms holds_known_safes by (fastforce simp: collect_safes_iff)

lemma collect_mines_subset:
  assumes "\<forall>x \<in> set kb. holds_in M x" shows "collect_mines kb |\<subseteq>| M"
  using assms holds_known_mines by (fastforce simp: collect_mines_iff)

lemma consistent_marked:
  assumes "consistent M s" shows "consistent M (marked s)"
proof -
  let ?S = "collect_safes (knowledge s)" and ?T = "collect_mines (knowledge s)"
  from assms have kb: "\<forall>x \<in> set (knowledge s). holds_in M x"
    and sf: "safes s |\<inter>| M = {||}" and mn: "mines s |\<subseteq>| M"
    by (simp_all add: consistent_def)
  have S: "?S |\<inter>| M = {||}" by (rule collect_safes_disjoint[OF kb])
  have T: "?T |\<subseteq>| M" by (rule collect_mines_subset[OF kb])
  from S have S': "(?S |-| safes s) |\<inter>| M = {||}" by auto
  from T have T': "?T |-| mines s |\<subseteq>| M" by auto
  have "(safes s |\<union>| ?S) |\<inter>| M = {||}" using sf S by auto
  moreover have "mines s |\<union>| ?T |\<subseteq>| M" using mn T by auto
  moreover have "\<forall>x \<in> set (knowledge (marked s)). holds_in M x"
    using kb holds_remove_safes[OF _ S'] holds_remove_mines[OF _ T']
    by (auto simp: marked_def)
  ultimately show ?thesis by (simp add: consistent_def marked_def)
qed

lemma holds_infer_new:
  assumes "\<forall>x \<in> set kb. holds_in M x" shows "\<forall>x \<in> set (infer_new kb). holds_in M x"
  using assms by (auto simp: set_infer_new fires_def intro!: holds_subtract)

lemma consistent_pass:
  assumes "consistent M s" shows "consistent M (fst (closure_pass s))"
proof -
  from consistent_marked[OF assms] have m: "consistent M (marked s)" .
  then have "\<forall>x \<in> set (infer_new (knowledge (marked s))). holds_in M x"
    by (intro holds_infer_new) (simp add: consistent_def)
  with m show ?thesis by (auto simp: closure_pass_eq consistent_def)
qed

lemma consistent_mark_safe:
  assumes "consistent M s" "c |\<notin>| M" shows "consistent M (mark_safe c s)"
proof -
  from assms(2) have "{|c|} |\<inter>| M = {||}" by auto
  with assms show ?thesis
    by (auto simp: consistent_def mark_safe_def sentence_mark_safe_remove intro: holds_remove_safes)
qed

lemma consistent_mark_mine:
  assumes "consistent M s" "c |\<in>| M" shows "consistent M (mark_mine c s)"
proof -
  from assms(2) have "{|c|} |\<subseteq>| M" by auto
  with assms show ?thesis
    by (auto simp: consistent_def mark_mine_def sentence_mark_mine_remove intro: holds_remove_mines)
qed

lemma nearby_product:
  "nearby h w c =
     filter (\<lambda>p. p \<noteq> c \<and> (0 \<le> fst p \<and> fst p < h \<and> 0 \<le> snd p \<and> snd p < w))
       (List.product [fst c - 1 .. fst c + 1] [snd c - 1 .. snd c + 1])"
proof -
  have "concat (map (\<lambda>x. concat (map (\<lambda>y. if P x y then if Q x y then [(x, y)] else [] else []) ys)) xs) =
        filter (\<lambda>p. P (fst p) (snd p) \<and> Q (fst p) (snd p)) (List.product xs ys)"
    for P Q :: "int \<Rightarrow> int \<Rightarrow> bool" and xs ys
  proof (induction xs)
    case Nil
    show ?case by simp
  next
    case (Cons x xs)
    have "concat (map (\<lambda>y. if P x y then if Q x y then [(x, y)] else [] else []) ys) =
          filter (\<lambda>p. P (fst p) (snd p) \<and> Q (fst p) (snd p)) (map (Pair x) ys)"
      by (induction ys) auto
    with Cons show ?case by simp
  qed
  from this[of "\<lambda>x y. (x, y) \<noteq> c" "\<lambda>x y. 0 \<le> x \<and> x < h \<and> 0 \<le> y \<and> y < w"]
  show ?thesis by (simp add: nearby_def)
qed

lemma distinct_nearby: "distinct (nearby h w c)"
  by (simp add: nearby_product distinct_product)

lemma fcard_fset_of_list: "distinct xs \<Longrightarrow> fcard (fset_of_list xs) = length xs"
  by (simp add: fcard.rep_eq fset_of_list.rep_eq distinct_card)

lemma length_filter_split:
  assumes "\<And>x. x \<in> set xs \<Longrightarrow> P x \<longleftrightarrow> Q x \<or> R x" "\<And>x. x \<in> set xs \<Longrightarrow> \<not> (Q x \<and> R x)"
  shows "length (filter P xs) = length (filter Q xs) + length (filter R xs)"
  using assms by (induction xs) auto

lemma holds_new_sentence:
  assumes "safes s |\<inter>| M = {||}" "mines s |\<subseteq>| M"
  shows "holds_in M \<lparr>cells = neighbors s c, count = adjust_count s c (nearby_mines (height s) (width s) M c)\<rparr>"
proof -
  let ?nb = "nearby (height s) (width s) c"
  let ?un = "\<lambda>n. \<not> (n |\<in>| safes s \<or> n |\<in>| mines s)"
  have eq: "neighbors s c |\<inter>| M = fset_of_list (filter (\<lambda>n. ?un n \<and> n |\<in>| M) ?nb)"
    by (auto simp: neighbors_def)
  have "distinct (filter (\<lambda>n. ?un n \<and> n |\<in>| M) ?nb)"
    by (simp add: distinct_nearby)
  then have 1: "fcard (neighbors s c |\<inter>| M) = length (filter (\<lambda>n. ?un n \<and> n |\<in>| M) ?nb)"
    unfolding eq by (rule fcard_fset_of_list)
  have 2: "length (filter (\<lambda>n. n |\<in>| M) ?nb) =
        length (filter (\<lambda>n. n |\<in>| mines s) ?nb) + length (filter (\<lambda>n. ?un n \<and> n |\<in>| M) ?nb)"
    using assms by (intro length_filter_split) auto
  show ?thesis
    using 1 2 by (simp add: holds_in_def adjust_count_def nearby_mines_def)
qed

lemma consistent_add_sentence:
  assumes "consistent M s" "c |\<notin>| M"
  shows "consistent M (add_sentence s c (nearby_mines (height s) (width s) M c))"
proof -
  let ?s1 = "mark_safe c (s\<lparr>moves_made := finsert c (moves_made s)\<rparr>)"
  from assms(1) have "consistent M (s\<lparr>moves_made := finsert c (moves_made s)\<rparr>)"
    by (simp add: consistent_def)
  then have c1: "consistent M ?s1" using assms(2) by (rule consistent_mark_safe)
  then have "holds_in M \<lparr>cells = neighbors ?s1 c,
      count = adjust_count ?s1 c (nearby_mines (height ?s1) (width ?s1) M c)\<rparr>"
    by (intro holds_new_sentence) (simp_all add: consistent_def)
  moreover have "height ?s1 = height s" "width ?s1 = width s"
    by (simp_all add: mark_safe_def)
  ultimately show ?thesis
    using c1 by (auto simp: add_sentence_def Let_def consistent_def)
qed

subsection \<open>The closure loop ends on a consistent knowledge base\<close>

lemma finite_kb_cells: "finite (kb_cells kb)"
  by (simp add: kb_cells_def)

lemma known_safes_subset: "known_safes x |\<subseteq>| cells x"
  by (simp add: known_safes_def)

lemma known_mines_subset: "known_mines x |\<subseteq>| cells x"
  by (simp add: known_mines_def)

lemma collect_safes_kb_cells: "fset (collect_safes kb) \<subseteq> kb_cells kb"
  using known_safes_subset by (fastforce simp: collect_safes_iff kb_cells_def)

lemma collect_mines_kb_cells: "fset (collect_mines kb) \<subseteq> kb_cells kb"
  using known_mines_subset by (fastforce simp: collect_mines_iff kb_cells_def)

lemma kb_cells_marked:
  "kb_cells (knowledge (marked s)) \<subseteq>
     kb_cells (knowledge s) - fset (collect_safes (knowledge s) |-| safes s)
       - fset (collect_mines (knowledge s) |-| mines s)"
  by (auto simp: kb_cells_def marked_def remove_safes_def remove_mines_def)

lemma kb_cells_infer_new: "kb_cells (infer_new kb) \<subseteq> kb_cells kb"
  by (auto simp: kb_cells_def set_infer_new subtract_def)

lemma kb_cells_append: "kb_cells (xs @ ys) = kb_cells xs \<union> kb_cells ys"
  by (auto simp: kb_cells_def)

lemma kb_cells_pass: "kb_cells (knowledge (fst (closure_pass s))) \<subseteq> kb_cells (knowledge (marked s))"
  using kb_cells_infer_new[of "knowledge (marked s)"]
  by (auto simp: closure_pass_eq kb_cells_append)

lemma marked_id:
  assumes "collect_safes (knowledge s) |\<subseteq>| safes s" "collect_mines (knowledge s) |\<subseteq>| mines s"
  shows "marked s = s"
proof -
  from assms have a: "collect_safes (knowledge s) |-| safes s = {||}"
    "collect_mines (knowledge s) |-| mines s = {||}"
    "safes s |\<union>| collect_safes (knowledge s) = safes s"
    "mines s |\<union>| collect_mines (knowledge s) = mines s"
    by auto
  have b: "map (remove_mines {||}) (map (remove_safes {||}) (knowledge s)) = knowledge s"
    by (simp add: map_idI remove_mines_def remove_safes_def fcard_fempty)
  show ?thesis unfolding marked_def a b by simp
qed

lemma pass_marking_shrinks:
  assumes "\<not> (collect_safes (knowledge s) |\<subseteq>| safes s \<and> collect_mines (knowledge s) |\<subseteq>| mines s)"
  shows "card (kb_cells (knowledge (fst (closure_pass s)))) < card (kb_cells (knowledge s))"
proof -
  from assms obtain c where c: "c |\<in>| collect_safes (knowledge s) |-| safes s \<or>
      c |\<in>| collect_mines (knowledge s) |-| mines s"
    by auto
  then have "c \<in> kb_cells (knowledge s)"
    using collect_safes_kb_cells[of "knowledge s"] collect_mines_kb_cells[of "knowledge s"] by auto
  moreover have "c \<notin> kb_cells (knowledge (marked s))"
    using c kb_cells_marked[of s] by auto
  moreover have "kb_cells (knowledge (marked s)) \<subseteq> kb_cells (knowledge s)"
    using kb_cells_marked[of s] by auto
  ultimately have "kb_cells (knowledge (fst (closure_pass s))) \<subset> kb_cells (knowledge s)"
    using kb_cells_pass[of s] by auto
  then show ?thesis by (rule psubset_card_mono[OF finite_kb_cells])
qed

lemma card_kb_bound:
  assumes "\<forall>x \<in> set kb. holds_in M x"
  shows "card (set kb) \<le> 2 ^ card (kb_cells kb)"
proof -
  have inj: "inj_on (\<lambda>x. fset (cells x)) (set kb)"
  proof (rule inj_onI)
    fix x y assume "x \<in> set kb" "y \<in> set kb" "fset (cells x) = fset (cells y)"
    with assms have "cells x = cells y" "count x = count y"
      by (simp_all add: holds_in_def fset_inject)
    then show "x = y" by simp
  qed
  have "(\<lambda>x. fset (cells x)) ` set kb \<subseteq> Pow (kb_cells kb)"
    by (auto simp: kb_cells_def)
  then have "card ((\<lambda>x. fset (cells x)) ` set kb) \<le> card (Pow (kb_cells kb))"
    by (intro card_mono) (simp_all add: finite_kb_cells)
  then show ?thesis
    by (simp add: card_image[OF inj] card_Pow[OF finite_kb_cells])
qed

lemma infer_new_fresh: "set (infer_new kb) \<inter> set kb = {}"
  by (auto simp: set_infer_new fires_def)

lemma closure_terminates:
  assumes "consistent M s" shows "\<exists>s'. closure s = Some s'"
  using assms
proof (induction s rule: wf_induct_rule[OF wf_measures[of
    "[\<lambda>s. card (kb_cells (knowledge s)),
      \<lambda>s. 2 ^ card (kb_cells (knowledge s)) - card (set (knowledge s))]"]])
  case (1 s)
  let ?s' = "fst (closure_pass s)"
  show ?case
  proof (cases "snd (closure_pass s)")
    case False
    then show ?thesis by (subst closure.simps) simp
  next
    case True
    have cons': "consistent M ?s'" by (rule consistent_pass[OF "1.prems"])
    have "(?s', s) \<in> measures [\<lambda>s. card (kb_cells (knowledge s)),
      \<lambda>s. 2 ^ card (kb_cells (knowledge s)) - card (set (knowledge s))]"
    proof (cases "collect_safes (knowledge s) |\<subseteq>| safes s \<and> collect_mines (knowledge s) |\<subseteq>| mines s")
      case False
      then show ?thesis using pass_marking_shrinks[of s] by simp
    next
      case nomark: True
      then have m: "marked s = s" by (simp add: marked_id)
      from True nomark have new: "infer_new (knowledge s) \<noteq> []"
        by (auto simp: closure_pass_eq m split: if_splits)
      then have kb': "knowledge ?s' = knowledge s @ infer_new (knowledge s)"
        by (simp add: closure_pass_eq m)
      have cells': "kb_cells (knowledge ?s') = kb_cells (knowledge s)"
        using kb_cells_infer_new[of "knowledge s"] by (auto simp: kb' kb_cells_append)
      have "set (knowledge s) \<subset> set (knowledge ?s')"
        using new infer_new_fresh[of "knowledge s"] unfolding kb'
        by (cases "infer_new (knowledge s)") auto
      then have "card (set (knowledge s)) < card (set (knowledge ?s'))"
        by (intro psubset_card_mono) simp_all
      moreover from cons' have "card (set (knowledge ?s')) \<le> 2 ^ card (kb_cells (knowledge ?s'))"
        by (intro card_kb_bound[of _ M]) (simp add: consistent_def)
      ultimately show ?thesis by (simp add: cells')
    qed
    from "1.IH"[OF this cons'] True show ?thesis by (subst closure.simps) simp
  qed
qed

subsection \<open>A pass that reports no update changes nothing\<close>

lemma all_moves_iff:
  "(i, j) |\<in>| all_moves s \<longleftrightarrow> 0 \<le> i \<and> i < height s \<and> 0 \<le> j \<and> j < width s"
  by (force simp: all_moves_def fset_of_list_elem)

lemma pass_fixed:
  assumes "\<not> snd (closure_pass s)" shows "closure_pass s = (s, False)"
proof -
  from assms have new: "infer_new (knowledge (marked s)) = []"
    by (auto simp: closure_pass_eq split: if_splits)
  with assms have "collect_safes (knowledge s) |\<subseteq>| safes s" "collect_mines (knowledge s) |\<subseteq>| mines s"
    by (auto simp: closure_pass_eq)
  then have m: "marked s = s" by (rule marked_id)
  with new have n: "infer_new (knowledge s) = []" by simp
  show ?thesis using \<open>collect_safes (knowledge s) |\<subseteq>| safes s\<close> \<open>collect_mines (knowledge s) |\<subseteq>| mines s\<close>
    by (subst closure_pass_eq) (simp add: m n)
qed

lemma closure_result_fixed:
  assumes "closure s = Some s'" shows "closure_pass s' = (s', False)"
proof (rule closure.raw_induct[OF _ assms])
  fix f x y
  assume IH: "\<And>x y. f x = Some y \<Longrightarrow> closure_pass y = (y, False)"
    and body: "(if snd (closure_pass x) then f (fst (closure_pass x))
                else Some (fst (closure_pass x))) = Some y"
  show "closure_pass y = (y, False)"
  proof (cases "snd (closure_pass x)")
    case True
    with body IH show ?thesis by simp
  next
    case False
    with body have "y = fst (closure_pass x)" by simp
    with False show ?thesis by (simp add: pass_fixed)
  qed
qed

subsection \<open>Running the loop on the first scenario\<close>

lemmas pass_eval = closure_pass_eq marked_def collect_safes_def collect_mines_def known_safes_def known_mines_def
  infer_new_def infer_pair_def remove_safes_def remove_mines_def Let_def fcard_finsert_if fcard_fempty

lemma s1_pass1:
  assumes "distinct [c1, c2, c3]"
  shows "closure_pass (scenario1 c1 c2 c3 s) =
    (s\<lparr>mines := {||}, safes := {||}, knowledge := [\<lparr>cells = {|c1, c2|}, count = 1\<rparr>, \<lparr>cells = {|c1, c2, c3|}, count = 2\<rparr>, \<lparr>cells = {|c3|}, count = 1\<rparr>]\<rparr>, True)"
proof -
  have "{|c1, c2, c3|} |-| {|c1, c2|} = {|c3|}" using assms by auto
  moreover have "\<not> {|c1, c2, c3|} |\<subseteq>| {|c1, c2|}" using assms by auto
  ultimately show ?thesis using assms
    by (simp add: scenario1_def pass_eval)
qed

lemma s1_pass2:
  assumes "distinct [c1, c2, c3]"
  shows "closure_pass (s\<lparr>mines := {||}, safes := {||}, knowledge := [\<lparr>cells = {|c1, c2|}, count = 1\<rparr>, \<lparr>cells = {|c1, c2, c3|}, count = 2\<rparr>, \<lparr>cells = {|c3|}, count = 1\<rparr>]\<rparr>) =
    (s\<lparr>mines := {|c3|}, safes := {||}, knowledge := [\<lparr>cells = {|c1, c2|}, count = 1\<rparr>, \<lparr>cells = {|c1, c2|}, count = 1\<rparr>, \<lparr>cells = {||}, count = 0\<rparr>]\<rparr>, True)"
proof -
  have "{|c1, c2, c3|} |-| {|c3|} = {|c1, c2|}" "{|c1, c2|} |-| {|c3|} = {|c1, c2|}"
    "{|c1, c2|} |\<inter>| {|c3|} = {||}"  "{|c1, c2, c3|} |\<inter>| {|c3|} = {|c3|}" using assms by auto
  then show ?thesis using assms
    by (simp add: pass_eval)
qed

lemma s1_pass3:
  assumes "distinct [c1, c2, c3]"
  shows "closure_pass (s\<lparr>mines := {|c3|}, safes := {||}, knowledge := [\<lparr>cells = {|c1, c2|}, count = 1\<rparr>, \<lparr>cells = {|c1, c2|}, count = 1\<rparr>, \<lparr>cells = {||}, count = 0\<rparr>]\<rparr>) =
    (s\<lparr>mines := {|c3|}, safes := {||}, knowledge := [\<lparr>cells = {|c1, c2|}, count = 1\<rparr>, \<lparr>cells = {|c1, c2|}, count = 1\<rparr>, \<lparr>cells = {||}, count = 0\<rparr>]\<rparr>, False)"
  using assms  by (simp add: pass_eval)

lemma s1_closure:
  assumes "distinct [c1, c2, c3]"
  shows "closure (scenario1 c1 c2 c3 s) = Some (s\<lparr>mines := {|c3|}, safes := {||}, knowledge := [\<lparr>cells = {|c1, c2|}, count = 1\<rparr>, \<lparr>cells = {|c1, c2|}, count = 1\<rparr>, \<lparr>cells = {||}, count = 0\<rparr>]\<rparr>)"
  apply (subst closure.simps, simp only: s1_pass1[OF assms] fst_conv snd_conv if_True)
  apply (subst closure.simps, simp only: s1_pass2[OF assms] fst_conv snd_conv if_True)
  apply (subst closure.simps, simp only: s1_pass3[OF assms] fst_conv snd_conv if_False)
  done

subsection \<open>What a call leaves alone and what it adds\<close>

lemma pass_frame:
  "height (fst (closure_pass s)) = height s \<and> width (fst (closure_pass s)) = width s \<and>
   moves_made (fst (closure_pass s)) = moves_made s \<and>
   safes (fst (closure_pass s)) = safes s |\<union>| collect_safes (knowledge s) \<and>
   mines (fst (closure_pass s)) = mines s |\<union>| collect_mines (knowledge s)"
  by (simp add: closure_pass_eq marked_def)

lemma closure_frame:
  assumes "closure s = Some s'"
  shows "height s' = height s \<and> width s' = width s \<and> moves_made s' = moves_made s \<and>
         safes s |\<subseteq>| safes s' \<and> mines s |\<subseteq>| mines s'"
proof (rule closure.raw_induct[OF _ assms])
  fix f x y
  assume IH: "\<And>x y. f x = Some y \<Longrightarrow> height y = height x \<and> width y = width x \<and>
      moves_made y = moves_made x \<and> safes x |\<subseteq>| safes y \<and> mines x |\<subseteq>| mines y"
    and body: "(if snd (closure_pass x) then f (fst (closure_pass x))
                else Some (fst (closure_pass x))) = Some y"
  show "height y = height x \<and> width y = width x \<and> moves_made y = moves_made x \<and>
        safes x |\<subseteq>| safes y \<and> mines x |\<subseteq>| mines y"
  proof (cases "snd (closure_pass x)")
    case True
    with body have "f (fst (closure_pass x)) = Some y" by simp
    from IH[OF this] show ?thesis using pass_frame[of x] by auto
  next
    case False
    with body have "y = fst (closure_pass x)" by simp
    then show ?thesis using pass_frame[of x] by auto
  qed
qed

lemma add_sentence_frame:
  "height (add_sentence s c n) = height s \<and> width (add_sentence s c n) = width s \<and>
   moves_made (add_sentence s c n) = finsert c (moves_made s) \<and>
   safes (add_sentence s c n) = finsert c (safes s) \<and>
   mines (add_sentence s c n) = mines s"
  by (simp add: add_sentence_def mark_safe_def Let_def)

lemma add_knowledge_frame:
  assumes "add_knowledge s c n = Some s'"
  shows "height s' = height s \<and> width s' = width s \<and> moves_made s' = finsert c (moves_made s) \<and>
         finsert c (safes s) |\<subseteq>| safes s' \<and> mines s |\<subseteq>| mines s'"
proof -
  from assms obtain t where t: "closure (add_sentence s c n) = Some t"
    and s': "s' = t\<lparr>knowledge := filter (\<lambda>x. cells x \<noteq> {||}) (knowledge t)\<rparr>"
    by (auto simp: add_knowledge_def split: option.splits)
  from closure_frame[OF t] add_sentence_frame[of s c n] show ?thesis
    by (simp add: s')
qed

lemma not_in_nearby: "c \<notin> set (nearby h w c)"
  by (simp add: nearby_product)

lemma neighbors_mark_safe: "neighbors (mark_safe c (s\<lparr>moves_made := mv\<rparr>)) c = neighbors s c"
proof -
  have "filter (\<lambda>n. \<not> (n |\<in>| finsert c (safes s) \<or> n |\<in>| mines s)) (nearby (height s) (width s) c) =
        filter (\<lambda>n. \<not> (n |\<in>| safes s \<or> n |\<in>| mines s)) (nearby (height s) (width s) c)"
    using not_in_nearby[of c "height s" "width s"] by (intro filter_cong) auto
  then show ?thesis by (simp add: neighbors_def mark_safe_def)
qed

lemmas add_eval = add_sentence_def mark_safe_def neighbors_def adjust_count_def nearby_def upto_rec1 init_ai_def
  fcard_finsert_if fcard_fempty Let_def sentence_mark_safe_def

lemma ex_add_sentence: "add_sentence (init_ai 1 2) (0,0) 5 = \<lparr>height = 1, width = 2, moves_made = {|(0,0)|}, mines = {||}, safes = {|(0,0)|}, knowledge = [\<lparr>cells = {|(0,1)|}, count = 5\<rparr>]\<rparr>"
  by (simp add: add_eval del: fset_of_list_filter)

lemma ex_pass: "closure_pass \<lparr>height = 1, width = 2, moves_made = {|(0,0)|}, mines = {||}, safes = {|(0,0)|}, knowledge = [\<lparr>cells = {|(0,1)|}, count = 5\<rparr>]\<rparr> = (\<lparr>height = 1, width = 2, moves_made = {|(0,0)|}, mines = {||}, safes = {|(0,0)|}, knowledge = [\<lparr>cells = {|(0,1)|}, count = 5\<rparr>]\<rparr>, False)"
  by (simp add: pass_eval)

subsection \<open>The subset rule in a pass\<close>

lemma subset_rule_derives:
  assumes "A \<in> set kb" "B \<in> set kb" "cells A \<noteq> {||}" "cells A |\<subseteq>| cells B"
  shows "cells (subtract A B) = {||} \<or> subtract A B \<in> set (kb @ infer_new kb)"
proof (cases "cells (subtract A B) = {||} \<or> subtract A B \<in> set kb")
  case True
  then show ?thesis by auto
next
  case False
  then have "cells A |\<subset>| cells B" using assms(4) by (auto simp: subtract_def)
  with False assms have "A \<in> set kb \<and> B \<in> set kb \<and> fires kb A B" by (simp add: fires_def)
  then have "subtract A B \<in> set (infer_new kb)" unfolding set_infer_new by blast
  then show ?thesis by simp
qed

lemma pass_propagates:
  assumes "x \<in> set (knowledge s)"
  shows "known_safes x |\<subseteq>| safes (fst (closure_pass s)) \<and> known_mines x |\<subseteq>| mines (fst (closure_pass s))"
proof -
  from assms have "known_safes x |\<subseteq>| collect_safes (knowledge s)"
    by (intro fsubsetI) (auto simp: collect_safes_iff)
  moreover from assms have "known_mines x |\<subseteq>| collect_mines (knowledge s)"
    by (intro fsubsetI) (auto simp: collect_mines_iff)
  moreover have "safes (fst (closure_pass s)) = safes s |\<union>| collect_safes (knowledge s)"
    "mines (fst (closure_pass s)) = mines s |\<union>| collect_mines (knowledge s)"
    using pass_frame[of s] by simp_all
  ultimately show ?thesis by (simp add: le_supI2)
qed

lemma knowledge_pass:
  "knowledge (fst (closure_pass s)) = knowledge (marked s) @ infer_new (knowledge (marked s))"
  by (simp add: closure_pass_eq)

subsection \<open>A run of the loop that never ends\<close>

lemma shape_known_safes: "runaway_shape x \<Longrightarrow> known_safes x = {||}"
  unfolding runaway_shape_def known_safes_def by (cases "count x = 0") auto

lemma shape_known_mines:
  assumes "runaway_shape x" shows "known_mines x = {||}"
proof -
  have f3: "fcard {|(0, 2), (1, 0), (1, 2 :: int) :: cell|} = 3"
    and f1: "fcard {|(1, 0 :: int) :: cell|} = 1"
    and f2: "fcard {|(0, 2), (1, 2 :: int) :: cell|} = 2"
    by (simp_all add: fcard_finsert_if fcard_fempty)
  from assms consider
      "cells x = {|(0, 2), (1, 0), (1, 2)|}" "count x = 2 \<or> count x = 6"
    | "cells x = {|(1, 0)|}" "count x mod 4 = 3"
    | "cells x = {|(0, 2), (1, 2)|}" "count x mod 4 = 3"
    unfolding runaway_shape_def by blast
  then have "int (fcard (cells x)) \<noteq> count x"
  proof cases
    case 1
    then show ?thesis using f3 by auto
  next
    case 2
    then show ?thesis using f1 by auto
  next
    case 3
    then show ?thesis using f2 by auto
  qed
  then show ?thesis by (simp add: known_mines_def)
qed

lemma runaway_no_marks:
  assumes "runaway s" shows "marked s = s"
proof -
  from assms have sh: "\<forall>x \<in> set (knowledge s). runaway_shape x"
    by (simp add: runaway_def)
  have "c |\<notin>| collect_safes (knowledge s)" for c
    using sh shape_known_safes by (simp add: collect_safes_iff)
  then have 1: "collect_safes (knowledge s) = {||}" by (intro fset_eqI) simp
  have "c |\<notin>| collect_mines (knowledge s)" for c
    using sh shape_known_mines by (simp add: collect_mines_iff)
  then have 2: "collect_mines (knowledge s) = {||}" by (intro fset_eqI) simp
  show ?thesis by (rule marked_id) (simp_all add: 1 2)
qed

lemma shape_subtract:
  assumes "runaway_shape a" "runaway_shape b" "cells a |\<subset>| cells b"
  shows "runaway_shape (subtract a b)"
proof -
  let ?B = "{|(0, 2), (1, 0), (1, 2 :: int) :: cell|}"
  let ?A = "{|(1, 0 :: int) :: cell|}"
  let ?D = "{|(0, 2), (1, 2 :: int) :: cell|}"
  have n: "\<not> ?A |\<subset>| ?D" "\<not> ?D |\<subset>| ?A" "\<not> ?B |\<subset>| ?A" "\<not> ?B |\<subset>| ?D"
    "\<not> ?A |\<subset>| ?A" "\<not> ?D |\<subset>| ?D" "\<not> ?B |\<subset>| ?B"
    by (simp_all add: less_fset_def less_le_not_le)
  have d1: "?B |-| ?A = ?D" by (rule fset_eqI) auto
  have d2: "?B |-| ?D = ?A" by (rule fset_eqI) auto
  from assms(1) have ca: "cells a = ?B \<or> (cells a = ?A \<or> cells a = ?D) \<and> count a mod 4 = 3"
    unfolding runaway_shape_def by blast
  from assms(2) have cb: "cells b = ?B \<and> (count b = 2 \<or> count b = 6) \<or> cells b = ?A \<or> cells b = ?D"
    unfolding runaway_shape_def by blast
  have b: "cells b = ?B \<and> (count b = 2 \<or> count b = 6)"
  proof (rule ccontr)
    assume "\<not> ?thesis"
    with cb have "cells b = ?A \<or> cells b = ?D" by blast
    moreover from ca have "cells a = ?B \<or> cells a = ?A \<or> cells a = ?D" by blast
    ultimately show False using assms(3) n by metis
  qed
  have a: "(cells a = ?A \<or> cells a = ?D) \<and> count a mod 4 = 3"
  proof (rule ccontr)
    assume "\<not> ?thesis"
    with ca have "cells a = ?B" by blast
    with b assms(3) n(7) show False by metis
  qed
  from a have ka: "count a mod 4 = 3" by blast
  from b have kb: "count b = 2 \<or> count b = 6" by blast
  from ka kb have k: "(count b - count a) mod 4 = 3" by presburger
  from a b have "cells b |-| cells a = ?D \<or> cells b |-| cells a = ?A"
    using d1 d2 by metis
  with k show ?thesis
    unfolding runaway_shape_def subtract_def by (simp, blast)
qed

lemma runaway_new:
  assumes "runaway s" shows "infer_new (knowledge s) \<noteq> []"
proof -
  let ?kb = "knowledge s"
  let ?B2 = "\<lparr>cells = {|(0, 2), (1, 0), (1, 2)|}, count = 2\<rparr>"
  let ?B6 = "\<lparr>cells = {|(0, 2), (1, 0), (1, 2)|}, count = 6\<rparr>"
  let ?K = "{k. \<lparr>cells = {|(1, 0)|}, count = k\<rparr> \<in> set ?kb}"
  from assms have B2: "?B2 \<in> set ?kb" and B6: "?B6 \<in> set ?kb" and ne: "?K \<noteq> {}"
    by (auto simp: runaway_def)
  have "?K \<subseteq> count ` set ?kb" by force
  then have fin: "finite ?K" by (rule finite_subset) simp
  define k where "k = Max ?K"
  have kin: "\<lparr>cells = {|(1, 0)|}, count = k\<rparr> \<in> set ?kb"
    using Max_in[OF fin ne] by (simp add: k_def)
  have kmax: "\<lparr>cells = {|(1, 0)|}, count = k + 4\<rparr> \<notin> set ?kb"
  proof
    assume "\<lparr>cells = {|(1, 0)|}, count = k + 4\<rparr> \<in> set ?kb"
    then have "k + 4 \<in> ?K" by simp
    from Max_ge[OF fin this] show False by (simp add: k_def)
  qed
  let ?A = "\<lparr>cells = {|(1, 0)|}, count = k\<rparr>"
  let ?D = "\<lparr>cells = {|(0, 2), (1, 2)|}, count = 2 - k\<rparr>"
  have lt1: "{|(1, 0)|} |\<subset>| {|(0, 2), (1, 0), (1, 2 :: int) :: cell|}"
    and lt2: "{|(0, 2), (1, 2)|} |\<subset>| {|(0, 2), (1, 0), (1, 2 :: int) :: cell|}"
    by (simp_all add: less_le_not_le)
  have d1: "{|(0, 2), (1, 0), (1, 2)|} |-| {|(1, 0 :: int) :: cell|} = {|(0, 2), (1, 2)|}"
    by (rule fset_eqI) auto
  have d2: "{|(0, 2), (1, 0), (1, 2)|} |-| {|(0, 2), (1, 2 :: int) :: cell|} = {|(1, 0)|}"
    by (rule fset_eqI) auto
  have sAB: "subtract ?A ?B2 = ?D" by (simp add: subtract_def d1)
  have sDB: "subtract ?D ?B6 = \<lparr>cells = {|(1, 0)|}, count = k + 4\<rparr>"
    by (simp add: subtract_def d2)
  have "\<exists>y. y \<in> set (infer_new ?kb)"
  proof (cases "?D \<in> set ?kb")
    case False
    then have "fires ?kb ?A ?B2" using lt1 by (simp add: fires_def sAB)
    with kin B2 have "subtract ?A ?B2 \<in> set (infer_new ?kb)"
      unfolding set_infer_new by blast
    then show ?thesis ..
  next
    case True
    have "fires ?kb ?D ?B6" using lt2 kmax by (simp add: fires_def sDB)
    with True B6 have "subtract ?D ?B6 \<in> set (infer_new ?kb)"
      unfolding set_infer_new by blast
    then show ?thesis ..
  qed
  then show ?thesis by auto
qed

lemma runaway_step:
  assumes "runaway s"
  shows "snd (closure_pass s) \<and> runaway (fst (closure_pass s))"
proof -
  have m: "marked s = s" by (rule runaway_no_marks[OF assms])
  have new: "infer_new (knowledge s) \<noteq> []" by (rule runaway_new[OF assms])
  then have p: "closure_pass s = (s\<lparr>knowledge := knowledge s @ infer_new (knowledge s)\<rparr>, True)"
    by (simp add: closure_pass_eq m)
  from assms have sh: "\<forall>x \<in> set (knowledge s). runaway_shape x"
    by (simp add: runaway_def)
  have "runaway_shape y" if "y \<in> set (infer_new (knowledge s))" for y
  proof -
    from that obtain a b where "a \<in> set (knowledge s)" "b \<in> set (knowledge s)"
      "cells a |\<subset>| cells b" "y = subtract a b"
      unfolding set_infer_new fires_def by blast
    with sh show ?thesis using shape_subtract by blast
  qed
  with sh assms have "runaway (s\<lparr>knowledge := knowledge s @ infer_new (knowledge s)\<rparr>)"
    unfolding runaway_def by auto
  with p show ?thesis by simp
qed

lemma runaway_diverges:
  assumes "runaway s" shows "closure s = None"
proof (rule ccontr)
  assume "closure s \<noteq> None"
  then obtain s' where s': "closure s = Some s'" by auto
  have "\<not> runaway s"
  proof (rule closure.raw_induct[OF _ s'])
    fix f x y
    assume IH: "\<And>x y. f x = Some y \<Longrightarrow> \<not> runaway x"
      and body: "(if snd (closure_pass x) then f (fst (closure_pass x))
                  else Some (fst (closure_pass x))) = Some y"
    show "\<not> runaway x"
    proof
      assume r: "runaway x"
      from runaway_step[OF r] body have "f (fst (closure_pass x)) = Some y" by simp
      from IH[OF this] runaway_step[OF r] show False by simp
    qed
  qed
  with assms show False by simp
qed

lemma nearby_board_01: "nearby 2 3 (0, 1) = [(0, 0), (0, 2), (1, 0), (1, 1), (1, 2)]"
  by (simp add: nearby_def upto_rec1)

lemma nearby_board_11: "nearby 2 3 (1, 1) = [(0, 0), (0, 1), (0, 2), (1, 0), (1, 2)]"
  by (simp add: nearby_def upto_rec1)

lemma nearby_board_00: "nearby 2 3 (0, 0) = [(0, 1), (1, 0), (1, 1)]"
  by (simp add: nearby_def upto_rec1)

lemmas add_eval2 = add_sentence_def mark_safe_def neighbors_def adjust_count_def init_ai_def
  fcard_finsert_if fcard_fempty Let_def sentence_mark_safe_def

lemma board_add1: "add_sentence (init_ai 2 3) (0, 1) 2 = board1"
  by (simp add: add_eval2 nearby_board_01 board1_def del: fset_of_list_filter)

lemma board_pass1: "closure_pass board1 = (board1, False)"
  by (simp add: board1_def pass_eval)

lemma board_call1: "add_knowledge (init_ai 2 3) (0, 1) 2 = Some board1"
proof -
  have "closure board1 = Some board1" by (subst closure.simps) (simp add: board_pass1)
  then show ?thesis by (simp add: add_knowledge_def board_add1) (simp add: board1_def)
qed

lemma board_add2: "add_sentence board1 (1, 1) 6 = board2"
proof -
  have "{|(0, 0), (0, 2), (1, 0), (1, 1), (1, 2)|} |-| {|(1, 1 :: int) :: cell|} = {|(0, 0), (0, 2), (1, 0), (1, 2)|}"
    by (rule fset_eqI) auto
  then show ?thesis
    by (simp add: add_eval2 nearby_board_11 board1_def board2_def del: fset_of_list_filter)
qed

lemma board_pass2: "closure_pass board2 = (board2, False)"
  by (simp add: board2_def pass_eval)

lemma board_call2: "add_knowledge board1 (1, 1) 6 = Some board2"
proof -
  have "closure board2 = Some board2" by (subst closure.simps) (simp add: board_pass2)
  then show ?thesis by (simp add: add_knowledge_def board_add2) (simp add: board2_def)
qed

lemma board_add3:
  "add_sentence board2 (0, 0) 3 =
     \<lparr>height = 2, width = 3, moves_made = {|(0, 0), (1, 1), (0, 1)|}, mines = {||},
       safes = {|(0, 0), (1, 1), (0, 1)|},
       knowledge = [\<lparr>cells = {|(0, 2), (1, 0), (1, 2)|}, count = 2\<rparr>,
                    \<lparr>cells = {|(0, 2), (1, 0), (1, 2)|}, count = 6\<rparr>,
                    \<lparr>cells = {|(1, 0)|}, count = 3\<rparr>]\<rparr>"
proof -
  have "{|(0, 0), (0, 2), (1, 0), (1, 2)|} |-| {|(0, 0 :: int) :: cell|} = {|(0, 2), (1, 0), (1, 2)|}"
    by (rule fset_eqI) auto
  then show ?thesis
    by (simp add: add_eval2 nearby_board_00 board2_def del: fset_of_list_filter)
qed

lemma board_call3: "add_knowledge board2 (0, 0) 3 = None"
proof -
  have "runaway (add_sentence board2 (0, 0) 3)"
    unfolding board_add3 by (simp add: runaway_def runaway_shape_def)
  then show ?thesis by (simp add: add_knowledge_def runaway_diverges)
qed

subsection \<open>Truthful observations keep the state consistent\<close>

lemma consistent_closure:
  assumes "closure s = Some s'" shows "consistent M s \<longrightarrow> consistent M s'"
proof (rule closure.raw_induct[OF _ assms])
  fix f x y
  assume IH: "\<And>x y. f x = Some y \<Longrightarrow> consistent M x \<longrightarrow> consistent M y"
    and body: "(if snd (closure_pass x) then f (fst (closure_pass x))
                else Some (fst (closure_pass x))) = Some y"
  show "consistent M x \<longrightarrow> consistent M y"
  proof
    assume c: "consistent M x"
    show "consistent M y"
    proof (cases "snd (closure_pass x)")
      case True
      with body have "f (fst (closure_pass x)) = Some y" by simp
      from IH[OF this] consistent_pass[OF c] show ?thesis by simp
    next
      case False
      with body have "y = fst (closure_pass x)" by simp
      with consistent_pass[OF c] show ?thesis by simp
    qed
  qed
qed

lemma add_knowledge_sound:
  assumes "consistent M s" "c |\<notin>| M"
  shows "\<exists>s'. add_knowledge s c (nearby_mines (height s) (width s) M c) = Some s' \<and> consistent M s'"
proof -
  let ?t = "add_sentence s c (nearby_mines (height s) (width s) M c)"
  have ct: "consistent M ?t" by (rule consistent_add_sentence[OF assms])
  from closure_terminates[OF ct] obtain u where u: "closure ?t = Some u" by blast
  from consistent_closure[OF u] ct have "consistent M u" by simp
  then have "consistent M (u\<lparr>knowledge := filter (\<lambda>x. cells x \<noteq> {||}) (knowledge u)\<rparr>)"
    by (simp add: consistent_def)
  with u show ?thesis by (simp add: add_knowledge_def)
qed

lemma consistent_disjoint: "consistent M s \<Longrightarrow> safes s |\<inter>| mines s = {||}"
  unfolding consistent_def by (intro fset_eqI) auto

lemma add_knowledge_all_mono:
  "add_knowledge_all s obs = Some s' \<Longrightarrow> safes s |\<subseteq>| safes s' \<and> mines s |\<subseteq>| mines s'"
proof (induction obs arbitrary: s)
  case Nil
  then show ?case by simp
next
  case (Cons ob obs)
  obtain c n where o: "ob = (c, n)" by (cases ob)
  from Cons.prems obtain t where t: "add_knowledge s c n = Some t"
    and r: "add_knowledge_all t obs = Some s'"
    by (auto simp: o split: option.splits)
  from add_knowledge_frame[OF t] have "safes s |\<subseteq>| safes t" "mines s |\<subseteq>| mines t" by auto
  with Cons.IH[OF r] show ?case by auto
qed

lemma add_knowledge_all_sound:
  "consistent M s \<Longrightarrow> truthful M s obs \<Longrightarrow>
     \<exists>t. add_knowledge_all s obs = Some t \<and> consistent M t"
proof (induction obs arbitrary: s)
  case Nil
  then show ?case by simp
next
  case (Cons ob obs)
  obtain c n where o: "ob = (c, n)" by (cases ob)
  from Cons.prems(2) have c: "c |\<notin>| M" and n: "n = nearby_mines (height s) (width s) M c"
    and rest: "truthful M s obs"
    by (auto simp: truthful_def o)
  from add_knowledge_sound[OF Cons.prems(1) c] obtain t
    where t: "add_knowledge s c n = Some t" and ct: "consistent M t"
    unfolding n by blast
  from add_knowledge_frame[OF t] have "height t = height s" "width t = width s" by auto
  with rest have "truthful M t obs" by (simp add: truthful_def)
  from Cons.IH[OF ct this] t show ?case by (simp add: o)
qed

subsection \<open>Concrete runs\<close>

lemma ex_add_oob: "add_sentence (init_ai 1 1) (5, 5) 0 = (init_ai 1 1)\<lparr>moves_made := {|(5, 5)|}, safes := {|(5, 5)|}\<rparr>"
  by (simp add: add_eval del: fset_of_list_filter)

lemma ex_pass_oob: "closure_pass ((init_ai 1 1)\<lparr>moves_made := {|(5, 5)|}, safes := {|(5, 5)|}\<rparr>) = ((init_ai 1 1)\<lparr>moves_made := {|(5, 5)|}, safes := {|(5, 5)|}\<rparr>, False)"
  by (simp add: pass_eval init_ai_def)

lemma ex_oob: "add_knowledge (init_ai 1 1) (5, 5) 0 = Some ((init_ai 1 1)\<lparr>moves_made := {|(5, 5)|}, safes := {|(5, 5)|}\<rparr>)"
  unfolding add_knowledge_def ex_add_oob
  by (subst closure.simps) (simp add: ex_pass_oob, simp add: init_ai_def)

lemma ex_add_again:
  "add_sentence \<lparr>height = 1, width = 2, moves_made = {|(0, 0)|}, mines = {||}, safes = {|(0, 0)|},
       knowledge = [\<lparr>cells = {|(0, 1)|}, count = 5\<rparr>]\<rparr> (0, 0) 3 =
     \<lparr>height = 1, width = 2, moves_made = {|(0, 0)|}, mines = {||}, safes = {|(0, 0)|},
       knowledge = [\<lparr>cells = {|(0, 1)|}, count = 5\<rparr>, \<lparr>cells = {|(0, 1)|}, count = 3\<rparr>]\<rparr>"
  by (simp add: add_eval del: fset_of_list_filter)

lemma ex_pass_again:
  "closure_pass \<lparr>height = 1, width = 2, moves_made = {|(0, 0)|}, mines = {||}, safes = {|(0, 0)|},
       knowledge = [\<lparr>cells = {|(0, 1)|}, count = 5\<rparr>, \<lparr>cells = {|(0, 1)|}, count = 3\<rparr>]\<rparr> =
     (\<lparr>height = 1, width = 2, moves_made = {|(0, 0)|}, mines = {||}, safes = {|(0, 0)|},
       knowledge = [\<lparr>cells = {|(0, 1)|}, count = 5\<rparr>, \<lparr>cells = {|(0, 1)|}, count = 3\<rparr>]\<rparr>, False)"
  by (simp add: pass_eval)

lemma nearby_sq_00: "nearby 2 2 (0, 0) = [(0, 1), (1, 0), (1, 1)]"
  by (simp add: nearby_def upto_rec1)

lemma nearby_sq_01: "nearby 2 2 (0, 1) = [(0, 0), (1, 0), (1, 1)]"
  by (simp add: nearby_def upto_rec1)

lemma sq_add1: "add_sentence (init_ai 2 2) (0, 0) 2 = square1"
  by (simp add: add_eval2 nearby_sq_00 square1_def del: fset_of_list_filter)

lemma sq_pass1: "closure_pass square1 = (square1, False)"
  by (simp add: square1_def pass_eval)

lemma sq_call1: "add_knowledge (init_ai 2 2) (0, 0) 2 = Some square1"
proof -
  have "closure square1 = Some square1" by (subst closure.simps) (simp add: sq_pass1)
  then show ?thesis by (simp add: add_knowledge_def sq_add1) (simp add: square1_def)
qed

lemma sq_add2:
  "add_sentence square1 (0, 1) 0 =
     \<lparr>height = 2, width = 2, moves_made = {|(0, 1), (0, 0)|}, mines = {||}, safes = {|(0, 1), (0, 0)|},
       knowledge = [\<lparr>cells = {|(1, 0), (1, 1)|}, count = 2\<rparr>, \<lparr>cells = {|(1, 0), (1, 1)|}, count = 0\<rparr>]\<rparr>"
proof -
  have "{|(0, 1), (1, 0), (1, 1)|} |-| {|(0, 1 :: int) :: cell|} = {|(1, 0), (1, 1)|}"
    by (rule fset_eqI) auto
  then show ?thesis
    by (simp add: add_eval2 nearby_sq_01 square1_def del: fset_of_list_filter)
qed

lemma sq_pass2:
  "closure_pass \<lparr>height = 2, width = 2, moves_made = {|(0, 1), (0, 0)|}, mines = {||}, safes = {|(0, 1), (0, 0)|},
       knowledge = [\<lparr>cells = {|(1, 0), (1, 1)|}, count = 2\<rparr>, \<lparr>cells = {|(1, 0), (1, 1)|}, count = 0\<rparr>]\<rparr> =
     (\<lparr>height = 2, width = 2, moves_made = {|(0, 1), (0, 0)|}, mines = {|(1, 0), (1, 1)|},
       safes = {|(1, 0), (1, 1), (0, 1), (0, 0)|},
       knowledge = [\<lparr>cells = {||}, count = 2\<rparr>, \<lparr>cells = {||}, count = 0\<rparr>]\<rparr>, True)"
  by (simp add: pass_eval)

lemma sq_pass3:
  "closure_pass \<lparr>height = 2, width = 2, moves_made = {|(0, 1), (0, 0)|}, mines = {|(1, 0), (1, 1)|},
       safes = {|(1, 0), (1, 1), (0, 1), (0, 0)|},
       knowledge = [\<lparr>cells = {||}, count = 2\<rparr>, \<lparr>cells = {||}, count = 0\<rparr>]\<rparr> =
     (\<lparr>height = 2, width = 2, moves_made = {|(0, 1), (0, 0)|}, mines = {|(1, 0), (1, 1)|},
       safes = {|(1, 0), (1, 1), (0, 1), (0, 0)|},
       knowledge = [\<lparr>cells = {||}, count = 2\<rparr>, \<lparr>cells = {||}, count = 0\<rparr>]\<rparr>, False)"
  by (simp add: pass_eval)

lemma sq_call2: "add_knowledge square1 (0, 1) 0 = Some square2"
  unfolding add_knowledge_def sq_add2
  apply (subst closure.simps, simp only: sq_pass2 fst_conv snd_conv if_True)
  apply (subst closure.simps, simp only: sq_pass3 fst_conv snd_conv if_False)
  apply (simp add: square2_def)
  done

lemma nearby_row_00: "nearby 1 3 (0, 0) = [(0, 1)]"
  by (simp add: nearby_def upto_rec1)

lemma nearby_row_01: "nearby 1 3 (0, 1) = [(0, 0), (0, 2)]"
  by (simp add: nearby_def upto_rec1)

lemma row0_consistent: "consistent {|(0, 2)|} row0"
proof -
  have "{|(0, 1), (0, 2)|} |\<inter>| {|(0, 2 :: int) :: cell|} = {|(0, 2)|}"
    by (rule fset_eqI) auto
  then show ?thesis
    by (simp add: consistent_def row0_def init_ai_def holds_in_def fcard_finsert_if fcard_fempty)
qed

subsection \<open>Removing the empty sentences keeps a fixed point\<close>

lemma pass_fixed_iff:
  "closure_pass s = (s, False) \<longleftrightarrow>
     collect_safes (knowledge s) |\<subseteq>| safes s \<and> collect_mines (knowledge s) |\<subseteq>| mines s \<and>
     infer_new (knowledge s) = []"
proof
  assume p: "closure_pass s = (s, False)"
  then have new: "infer_new (knowledge (marked s)) = []"
    by (auto simp: closure_pass_eq split: if_splits)
  with p have sub: "collect_safes (knowledge s) |\<subseteq>| safes s" "collect_mines (knowledge s) |\<subseteq>| mines s"
    by (auto simp: closure_pass_eq)
  then have "marked s = s" by (rule marked_id)
  with new sub show "collect_safes (knowledge s) |\<subseteq>| safes s \<and>
      collect_mines (knowledge s) |\<subseteq>| mines s \<and> infer_new (knowledge s) = []"
    by simp
next
  assume a: "collect_safes (knowledge s) |\<subseteq>| safes s \<and> collect_mines (knowledge s) |\<subseteq>| mines s \<and>
     infer_new (knowledge s) = []"
  then have "marked s = s" by (simp add: marked_id)
  with a show "closure_pass s = (s, False)" by (subst closure_pass_eq) simp
qed

lemma pass_fixed_cleanup:
  assumes "closure_pass t = (t, False)"
  shows "closure_pass (t\<lparr>knowledge := filter (\<lambda>x. cells x \<noteq> {||}) (knowledge t)\<rparr>) =
           (t\<lparr>knowledge := filter (\<lambda>x. cells x \<noteq> {||}) (knowledge t)\<rparr>, False)"
proof -
  let ?kb = "knowledge t" and ?kb' = "filter (\<lambda>x. cells x \<noteq> {||}) (knowledge t)"
  from assms have s: "collect_safes ?kb |\<subseteq>| safes t" and m: "collect_mines ?kb |\<subseteq>| mines t"
    and n: "infer_new ?kb = []"
    by (simp_all add: pass_fixed_iff)
  have "collect_safes ?kb' |\<subseteq>| collect_safes ?kb"
    by (intro fsubsetI) (auto simp: collect_safes_iff)
  from this s have s': "collect_safes ?kb' |\<subseteq>| safes t" by (rule fsubset_trans)
  have "collect_mines ?kb' |\<subseteq>| collect_mines ?kb"
    by (intro fsubsetI) (auto simp: collect_mines_iff)
  from this m have m': "collect_mines ?kb' |\<subseteq>| mines t" by (rule fsubset_trans)
  have "set (infer_new ?kb') = {}"
  proof (rule ccontr)
    assume "set (infer_new ?kb') \<noteq> {}"
    then obtain a b where ab: "a \<in> set ?kb'" "b \<in> set ?kb'" "fires ?kb' a b"
      unfolding set_infer_new by blast
    then have ne: "cells a \<noteq> {||}" and lt: "cells a |\<subset>| cells b" and fresh: "subtract a b \<notin> set ?kb'"
      by (simp_all add: fires_def)
    from lt have "cells (subtract a b) \<noteq> {||}" by (auto simp: subtract_def)
    with fresh have "subtract a b \<notin> set ?kb" by simp
    with ne lt have "fires ?kb a b" by (simp add: fires_def)
    moreover from ab have "a \<in> set ?kb" "b \<in> set ?kb" by simp_all
    ultimately have "subtract a b \<in> set (infer_new ?kb)" unfolding set_infer_new by blast
    with n show False by simp
  qed
  then have n': "infer_new ?kb' = []" by simp
  show ?thesis by (simp add: pass_fixed_iff s' m' n')
qed

subsection \<open>The subset rule through the whole loop\<close>

lemma two_pass1:
  assumes "distinct [c1, c2, c3]"
  shows "closure_pass (s\<lparr>knowledge := [\<lparr>cells = {|c1, c2|}, count = 1\<rparr>, \<lparr>cells = {|c1, c2, c3|}, count = 2\<rparr>]\<rparr>) =
    (s\<lparr>knowledge := [\<lparr>cells = {|c1, c2|}, count = 1\<rparr>, \<lparr>cells = {|c1, c2, c3|}, count = 2\<rparr>, \<lparr>cells = {|c3|}, count = 1\<rparr>]\<rparr>, True)"
proof -
  have "{|c1, c2, c3|} |-| {|c1, c2|} = {|c3|}" using assms by auto
  moreover have "\<not> {|c1, c2, c3|} |\<subseteq>| {|c1, c2|}" using assms by auto
  ultimately show ?thesis using assms
    by (simp add: pass_eval)
qed

lemma two_pass2_known:
  assumes "distinct [c1, c2, c3]" "c3 |\<in>| mines s"
  shows "closure_pass (s\<lparr>knowledge := [\<lparr>cells = {|c1, c2|}, count = 1\<rparr>, \<lparr>cells = {|c1, c2, c3|}, count = 2\<rparr>, \<lparr>cells = {|c3|}, count = 1\<rparr>]\<rparr>) =
    (s\<lparr>knowledge := [\<lparr>cells = {|c1, c2|}, count = 1\<rparr>, \<lparr>cells = {|c1, c2, c3|}, count = 2\<rparr>, \<lparr>cells = {|c3|}, count = 1\<rparr>]\<rparr>, False)"
proof -
  have "{|c1, c2, c3|} |-| {|c1, c2|} = {|c3|}" "{|c1, c2, c3|} |-| {|c3|} = {|c1, c2|}"
    using assms by auto
  moreover have "\<not> {|c1, c2, c3|} |\<subseteq>| {|c1, c2|}" "\<not> {|c1, c2, c3|} |\<subseteq>| {|c3|}"
    "\<not> {|c1, c2|} |\<subseteq>| {|c3|}" using assms by auto
  moreover have "mines s |\<union>| {|c3|} = mines s" "{|c3|} |-| mines s = {||}" using assms by auto
  ultimately show ?thesis using assms
    by (simp add: pass_eval)
qed

lemma two_pass2_new:
  assumes "distinct [c1, c2, c3]" "c3 |\<notin>| mines s"
  shows "closure_pass (s\<lparr>knowledge := [\<lparr>cells = {|c1, c2|}, count = 1\<rparr>, \<lparr>cells = {|c1, c2, c3|}, count = 2\<rparr>, \<lparr>cells = {|c3|}, count = 1\<rparr>]\<rparr>) =
    (s\<lparr>mines := finsert c3 (mines s),
       knowledge := [\<lparr>cells = {|c1, c2|}, count = 1\<rparr>, \<lparr>cells = {|c1, c2|}, count = 1\<rparr>, \<lparr>cells = {||}, count = 0\<rparr>]\<rparr>, True)"
proof -
  have "{|c1, c2, c3|} |-| {|c3|} = {|c1, c2|}" "{|c1, c2|} |-| {|c3|} = {|c1, c2|}"
    "{|c1, c2|} |\<inter>| {|c3|} = {||}" "{|c1, c2, c3|} |\<inter>| {|c3|} = {|c3|}" using assms by auto
  moreover have "mines s |\<union>| {|c3|} = finsert c3 (mines s)" "{|c3|} |-| mines s = {|c3|}"
    using assms by auto
  ultimately show ?thesis using assms
    by (simp add: pass_eval)
qed

lemma two_pass3:
  assumes "distinct [c1, c2, c3]"
  shows "closure_pass (s\<lparr>mines := finsert c3 (mines s),
       knowledge := [\<lparr>cells = {|c1, c2|}, count = 1\<rparr>, \<lparr>cells = {|c1, c2|}, count = 1\<rparr>, \<lparr>cells = {||}, count = 0\<rparr>]\<rparr>) =
    (s\<lparr>mines := finsert c3 (mines s),
       knowledge := [\<lparr>cells = {|c1, c2|}, count = 1\<rparr>, \<lparr>cells = {|c1, c2|}, count = 1\<rparr>, \<lparr>cells = {||}, count = 0\<rparr>]\<rparr>, False)"
  using assms by (simp add: pass_eval)

lemma two_closure:
  assumes "distinct [c1, c2, c3]"
  shows "\<exists>s'. closure (s\<lparr>knowledge := [\<lparr>cells = {|c1, c2|}, count = 1\<rparr>, \<lparr>cells = {|c1, c2, c3|}, count = 2\<rparr>]\<rparr>) = Some s' \<and>
     mines s' = finsert c3 (mines s) \<and> safes s' = safes s"
proof (cases "c3 |\<in>| mines s")
  case True
  have "closure (s\<lparr>knowledge := [\<lparr>cells = {|c1, c2|}, count = 1\<rparr>, \<lparr>cells = {|c1, c2, c3|}, count = 2\<rparr>]\<rparr>) =
      Some (s\<lparr>knowledge := [\<lparr>cells = {|c1, c2|}, count = 1\<rparr>, \<lparr>cells = {|c1, c2, c3|}, count = 2\<rparr>, \<lparr>cells = {|c3|}, count = 1\<rparr>]\<rparr>)"
    apply (subst closure.simps, simp only: two_pass1[OF assms] fst_conv snd_conv if_True)
    apply (subst closure.simps, simp only: two_pass2_known[OF assms True] fst_conv snd_conv if_False)
    done
  moreover from True have "finsert c3 (mines s) = mines s" by auto
  ultimately show ?thesis by simp
next
  case False
  have "closure (s\<lparr>knowledge := [\<lparr>cells = {|c1, c2|}, count = 1\<rparr>, \<lparr>cells = {|c1, c2, c3|}, count = 2\<rparr>]\<rparr>) =
      Some (s\<lparr>mines := finsert c3 (mines s),
       knowledge := [\<lparr>cells = {|c1, c2|}, count = 1\<rparr>, \<lparr>cells = {|c1, c2|}, count = 1\<rparr>, \<lparr>cells = {||}, count = 0\<rparr>]\<rparr>)"
    apply (subst closure.simps, simp only: two_pass1[OF assms] fst_conv snd_conv if_True)
    apply (subst closure.simps, simp only: two_pass2_new[OF assms False] fst_conv snd_conv if_True)
    apply (subst closure.simps, simp only: two_pass3[OF assms] fst_conv snd_conv if_False)
    done
  then show ?thesis by simp
qed

lemma rev_pass1:
  assumes "distinct [c1, c2, c3]"
  shows "closure_pass (s\<lparr>knowledge := [\<lparr>cells = {|c1, c2, c3|}, count = 1\<rparr>, \<lparr>cells = {|c1, c2|}, count = 1\<rparr>]\<rparr>) =
    (s\<lparr>knowledge := [\<lparr>cells = {|c1, c2, c3|}, count = 1\<rparr>, \<lparr>cells = {|c1, c2|}, count = 1\<rparr>, \<lparr>cells = {|c3|}, count = 0\<rparr>]\<rparr>, True)"
proof -
  have "{|c1, c2, c3|} |-| {|c1, c2|} = {|c3|}" using assms by auto
  moreover have "\<not> {|c1, c2, c3|} |\<subseteq>| {|c1, c2|}" using assms by auto
  moreover have "{|c1, c2|} \<noteq> {|c1, c2, c3|}" "{|c1, c2, c3|} \<noteq> {|c1, c2|}" using assms by auto
  ultimately show ?thesis using assms
    by (simp add: pass_eval)
qed

lemma rev_pass2_known:
  assumes "distinct [c1, c2, c3]" "c3 |\<in>| safes s"
  shows "closure_pass (s\<lparr>knowledge := [\<lparr>cells = {|c1, c2, c3|}, count = 1\<rparr>, \<lparr>cells = {|c1, c2|}, count = 1\<rparr>, \<lparr>cells = {|c3|}, count = 0\<rparr>]\<rparr>) =
    (s\<lparr>knowledge := [\<lparr>cells = {|c1, c2, c3|}, count = 1\<rparr>, \<lparr>cells = {|c1, c2|}, count = 1\<rparr>, \<lparr>cells = {|c3|}, count = 0\<rparr>]\<rparr>, False)"
proof -
  have "{|c1, c2, c3|} |-| {|c1, c2|} = {|c3|}" "{|c1, c2, c3|} |-| {|c3|} = {|c1, c2|}"
    using assms by auto
  moreover have "\<not> {|c1, c2, c3|} |\<subseteq>| {|c1, c2|}" "\<not> {|c1, c2, c3|} |\<subseteq>| {|c3|}"
    "\<not> {|c1, c2|} |\<subseteq>| {|c3|}" using assms by auto
  moreover have "{|c1, c2|} \<noteq> {|c1, c2, c3|}" "{|c1, c2, c3|} \<noteq> {|c1, c2|}" using assms by auto
  moreover have "safes s |\<union>| {|c3|} = safes s" "{|c3|} |-| safes s = {||}" using assms by auto
  ultimately show ?thesis using assms
    by (simp add: pass_eval)
qed

lemma rev_pass2_new:
  assumes "distinct [c1, c2, c3]" "c3 |\<notin>| safes s"
  shows "closure_pass (s\<lparr>knowledge := [\<lparr>cells = {|c1, c2, c3|}, count = 1\<rparr>, \<lparr>cells = {|c1, c2|}, count = 1\<rparr>, \<lparr>cells = {|c3|}, count = 0\<rparr>]\<rparr>) =
    (s\<lparr>safes := finsert c3 (safes s),
       knowledge := [\<lparr>cells = {|c1, c2|}, count = 1\<rparr>, \<lparr>cells = {|c1, c2|}, count = 1\<rparr>, \<lparr>cells = {||}, count = 0\<rparr>]\<rparr>, True)"
proof -
  have "{|c1, c2, c3|} |-| {|c3|} = {|c1, c2|}" "{|c1, c2|} |-| {|c3|} = {|c1, c2|}"
    using assms by auto
  moreover have "safes s |\<union>| {|c3|} = finsert c3 (safes s)" "{|c3|} |-| safes s = {|c3|}"
    using assms by auto
  ultimately show ?thesis using assms
    by (simp add: pass_eval)
qed

lemma rev_pass3:
  assumes "distinct [c1, c2, c3]"
  shows "closure_pass (s\<lparr>safes := finsert c3 (safes s),
       knowledge := [\<lparr>cells = {|c1, c2|}, count = 1\<rparr>, \<lparr>cells = {|c1, c2|}, count = 1\<rparr>, \<lparr>cells = {||}, count = 0\<rparr>]\<rparr>) =
    (s\<lparr>safes := finsert c3 (safes s),
       knowledge := [\<lparr>cells = {|c1, c2|}, count = 1\<rparr>, \<lparr>cells = {|c1, c2|}, count = 1\<rparr>, \<lparr>cells = {||}, count = 0\<rparr>]\<rparr>, False)"
  using assms by (simp add: pass_eval)

lemma rev_closure:
  assumes "distinct [c1, c2, c3]"
  shows "\<exists>s'. closure (s\<lparr>knowledge := [\<lparr>cells = {|c1, c2, c3|}, count = 1\<rparr>, \<lparr>cells = {|c1, c2|}, count = 1\<rparr>]\<rparr>) = Some s' \<and>
     safes s' = finsert c3 (safes s) \<and> mines s' = mines s"
proof (cases "c3 |\<in>| safes s")
  case True
  have "closure (s\<lparr>knowledge := [\<lparr>cells = {|c1, c2, c3|}, count = 1\<rparr>, \<lparr>cells = {|c1, c2|}, count = 1\<rparr>]\<rparr>) =
      Some (s\<lparr>knowledge := [\<lparr>cells = {|c1, c2, c3|}, count = 1\<rparr>, \<lparr>cells = {|c1, c2|}, count = 1\<rparr>, \<lparr>cells = {|c3|}, count = 0\<rparr>]\<rparr>)"
    apply (subst closure.simps, simp only: rev_pass1[OF assms] fst_conv snd_conv if_True)
    apply (subst closure.simps, simp only: rev_pass2_known[OF assms True] fst_conv snd_conv if_False)
    done
  moreover from True have "finsert c3 (safes s) = safes s" by auto
  ultimately show ?thesis by simp
next
  case False
  have "closure (s\<lparr>knowledge := [\<lparr>cells = {|c1, c2, c3|}, count = 1\<rparr>, \<lparr>cells = {|c1, c2|}, count = 1\<rparr>]\<rparr>) =
      Some (s\<lparr>safes := finsert c3 (safes s),
       knowledge := [\<lparr>cells = {|c1, c2|}, count = 1\<rparr>, \<lparr>cells = {|c1, c2|}, count = 1\<rparr>, \<lparr>cells = {||}, count = 0\<rparr>]\<rparr>)"
    apply (subst closure.simps, simp only: rev_pass1[OF assms] fst_conv snd_conv if_True)
    apply (subst closure.simps, simp only: rev_pass2_new[OF assms False] fst_conv snd_conv if_True)
    apply (subst closure.simps, simp only: rev_pass3[OF assms] fst_conv snd_conv if_False)
    done
  then show ?thesis by simp
qed

lemma fset_neqI: "x |\<in>| A \<Longrightarrow> x |\<notin>| B \<Longrightarrow> A \<noteq> B \<and> B \<noteq> A"
  by auto

lemma preempted_pass1: "closure_pass preempted0 = (preempted1, True)"
proof -
  have "{|(0, 1), (0, 2), (0, 3), (0, 4)|} |-| {|(0, 3 :: int) :: cell|} = {|(0, 1), (0, 2), (0, 4)|}"
    "{|(0, 1), (0, 2), (0, 4)|} |-| {|(0, 1), (0, 2 :: int) :: cell|} = {|(0, 4)|}"
    "{|(0, 1), (0, 2), (0, 3), (0, 4)|} |\<inter>| {|(0, 3 :: int) :: cell|} = {|(0, 3)|}"
    "{|(0, 1), (0, 2)|} |\<inter>| {|(0, 3 :: int) :: cell|} = {||}"
    by (rule fset_eqI, auto)+
  moreover have "{|(0, 1), (0, 2), (0, 4)|} \<noteq> {|(0, 1), (0, 2 :: int) :: cell|}"
    "{|(0, 1), (0, 2)|} \<noteq> {|(0, 1), (0, 2), (0, 4 :: int) :: cell|}"
    using fset_neqI[of "(0, 4 :: int) :: cell" "{|(0, 1), (0, 2), (0, 4)|}" "{|(0, 1), (0, 2)|}"]
    by simp_all
  ultimately show ?thesis
    by (simp add: preempted0_def preempted1_def init_ai_def pass_eval)
qed

lemma preempted_pass2: "closure_pass preempted1 = (preempted2, True)"
proof -
  have "{|(0, 1), (0, 2), (0, 4)|} |-| {|(0, 4 :: int) :: cell|} = {|(0, 1), (0, 2)|}"
    by (rule fset_eqI) auto
  then show ?thesis
    by (simp add: preempted1_def preempted2_def init_ai_def pass_eval)
qed

lemma preempted_pass3: "closure_pass preempted2 = (preempted2, False)"
  by (simp add: preempted2_def init_ai_def pass_eval)

lemma preempted_closure: "closure preempted0 = Some preempted2"
  apply (subst closure.simps, simp only: preempted_pass1 fst_conv snd_conv if_True)
  apply (subst closure.simps, simp only: preempted_pass2 fst_conv snd_conv if_True)
  apply (subst closure.simps, simp only: preempted_pass3 fst_conv snd_conv if_False)
  done

lemma contrary_pass1: "closure_pass contrary0 = (contrary1, True)"
proof -
  have "{|(0, 1), (0, 2), (0, 3)|} |-| {|(0, 3 :: int) :: cell|} = {|(0, 1), (0, 2)|}"
    by (rule fset_eqI) auto
  then show ?thesis
    by (simp add: contrary0_def contrary1_def init_ai_def pass_eval)
qed

lemma contrary_pass2: "closure_pass contrary1 = (contrary2, True)"
  by (simp add: contrary1_def contrary2_def init_ai_def pass_eval)

lemma contrary_pass3: "closure_pass contrary2 = (contrary2, False)"
  by (simp add: contrary2_def init_ai_def pass_eval)

lemma contrary_closure: "closure contrary0 = Some contrary2"
  apply (subst closure.simps, simp only: contrary_pass1 fst_conv snd_conv if_True)
  apply (subst closure.simps, simp only: contrary_pass2 fst_conv snd_conv if_True)
  apply (subst closure.simps, simp only: contrary_pass3 fst_conv snd_conv if_False)
  done

lemma nearby_board_10: "nearby 2 3 (1, 0) = [(0, 0), (0, 1), (1, 1)]"
  by (simp add: nearby_def upto_rec1)

lemma nearby_board_02: "nearby 2 3 (0, 2) = [(0, 1), (1, 1), (1, 2)]"
  by (simp add: nearby_def upto_rec1)

lemma corner_add1: "add_sentence (init_ai 2 3) (1, 0) 1 = corner1"
  by (simp add: add_eval2 nearby_board_10 corner1_def del: fset_of_list_filter)

lemma corner_pass1: "closure_pass corner1 = (corner1, False)"
  by (simp add: corner1_def pass_eval)

lemma corner_call1: "add_knowledge (init_ai 2 3) (1, 0) 1 = Some corner1"
proof -
  have "closure corner1 = Some corner1" by (subst closure.simps) (simp add: corner_pass1)
  then show ?thesis by (simp add: add_knowledge_def corner_add1) (simp add: corner1_def)
qed

lemma corner_add2: "add_sentence corner1 (0, 0) 1 = corner2"
proof -
  have "{|(0, 0), (0, 1), (1, 1)|} |-| {|(0, 0 :: int) :: cell|} = {|(0, 1), (1, 1)|}"
    by (rule fset_eqI) auto
  then show ?thesis
    by (simp add: add_eval2 nearby_board_00 corner1_def corner2_def del: fset_of_list_filter)
qed

lemma corner_pass2: "closure_pass corner2 = (corner2, False)"
  by (simp add: corner2_def pass_eval)

lemma corner_call2: "add_knowledge corner1 (0, 0) 1 = Some corner2"
proof -
  have "closure corner2 = Some corner2" by (subst closure.simps) (simp add: corner_pass2)
  then show ?thesis by (simp add: add_knowledge_def corner_add2) (simp add: corner2_def)
qed

lemma corner_add3: "add_sentence corner2 (0, 2) n = corner3 n"
  by (simp add: add_eval2 nearby_board_02 corner2_def corner3_def del: fset_of_list_filter)

lemma corner_sets:
  "{|(0, 1), (1, 1), (1, 2)|} |-| {|(0, 1), (1, 1 :: int) :: cell|} = {|(1, 2)|}"
  "{|(0, 1), (1, 1), (1, 2)|} |-| {|(1, 2 :: int) :: cell|} = {|(0, 1), (1, 1)|}"
  "{|(0, 1), (1, 1)|} |-| {|(1, 2 :: int) :: cell|} = {|(0, 1), (1, 1)|}"
  "{|(0, 1), (1, 1), (1, 2)|} |\<inter>| {|(1, 2 :: int) :: cell|} = {|(1, 2)|}"
  "{|(0, 1), (1, 1)|} |\<inter>| {|(1, 2 :: int) :: cell|} = {||}"
  "{|(0, 1), (1, 1), (1, 2)|} \<noteq> {|(0, 1), (1, 1 :: int) :: cell|}"
  "{|(0, 1), (1, 1)|} \<noteq> {|(0, 1), (1, 1), (1, 2 :: int) :: cell|}"
proof -
  show "{|(0, 1), (1, 1), (1, 2)|} |-| {|(0, 1), (1, 1 :: int) :: cell|} = {|(1, 2)|}"
    by (rule fset_eqI) auto
  show "{|(0, 1), (1, 1), (1, 2)|} |-| {|(1, 2 :: int) :: cell|} = {|(0, 1), (1, 1)|}"
    by (rule fset_eqI) auto
  show "{|(0, 1), (1, 1)|} |-| {|(1, 2 :: int) :: cell|} = {|(0, 1), (1, 1)|}"
    by (rule fset_eqI) auto
  show "{|(0, 1), (1, 1), (1, 2)|} |\<inter>| {|(1, 2 :: int) :: cell|} = {|(1, 2)|}"
    by (rule fset_eqI) auto
  show "{|(0, 1), (1, 1)|} |\<inter>| {|(1, 2 :: int) :: cell|} = {||}"
    by (rule fset_eqI) auto
  show "{|(0, 1), (1, 1), (1, 2)|} \<noteq> {|(0, 1), (1, 1 :: int) :: cell|}"
    "{|(0, 1), (1, 1)|} \<noteq> {|(0, 1), (1, 1), (1, 2 :: int) :: cell|}"
    using fset_neqI[of "(1, 2 :: int) :: cell" "{|(0, 1), (1, 1), (1, 2)|}" "{|(0, 1), (1, 1)|}"]
    by simp_all
qed

lemma corner3_mine_pass1:
  "closure_pass (corner3 2) = ((corner3 2)\<lparr>knowledge := [\<lparr>cells = {|(0, 1), (1, 1)|}, count = 1\<rparr>,
        \<lparr>cells = {|(0, 1), (1, 1)|}, count = 1\<rparr>,
        \<lparr>cells = {|(0, 1), (1, 1), (1, 2)|}, count = 2\<rparr>,
        \<lparr>cells = {|(1, 2)|}, count = 1\<rparr>]\<rparr>, True)"
  by (simp add: corner3_def pass_eval corner_sets)

lemma corner3_mine_pass2:
  "closure_pass ((corner3 2)\<lparr>knowledge := [\<lparr>cells = {|(0, 1), (1, 1)|}, count = 1\<rparr>,
        \<lparr>cells = {|(0, 1), (1, 1)|}, count = 1\<rparr>,
        \<lparr>cells = {|(0, 1), (1, 1), (1, 2)|}, count = 2\<rparr>,
        \<lparr>cells = {|(1, 2)|}, count = 1\<rparr>]\<rparr>) =
     (corner_mine\<lparr>knowledge := [\<lparr>cells = {|(0, 1), (1, 1)|}, count = 1\<rparr>,
        \<lparr>cells = {|(0, 1), (1, 1)|}, count = 1\<rparr>,
        \<lparr>cells = {|(0, 1), (1, 1)|}, count = 1\<rparr>,
        \<lparr>cells = {||}, count = 0\<rparr>]\<rparr>, True)"
  by (simp add: corner3_def corner_mine_def pass_eval corner_sets)

lemma corner3_mine_pass3:
  "closure_pass (corner_mine\<lparr>knowledge := [\<lparr>cells = {|(0, 1), (1, 1)|}, count = 1\<rparr>,
        \<lparr>cells = {|(0, 1), (1, 1)|}, count = 1\<rparr>,
        \<lparr>cells = {|(0, 1), (1, 1)|}, count = 1\<rparr>,
        \<lparr>cells = {||}, count = 0\<rparr>]\<rparr>) =
     (corner_mine\<lparr>knowledge := [\<lparr>cells = {|(0, 1), (1, 1)|}, count = 1\<rparr>,
        \<lparr>cells = {|(0, 1), (1, 1)|}, count = 1\<rparr>,
        \<lparr>cells = {|(0, 1), (1, 1)|}, count = 1\<rparr>,
        \<lparr>cells = {||}, count = 0\<rparr>]\<rparr>, False)"
  by (simp add: corner_mine_def pass_eval corner_sets)

lemma corner_call3_mine: "add_knowledge corner2 (0, 2) 2 = Some corner_mine"
  unfolding add_knowledge_def corner_add3
  apply (subst closure.simps, simp only: corner3_mine_pass1 fst_conv snd_conv if_True)
  apply (subst closure.simps, simp only: corner3_mine_pass2 fst_conv snd_conv if_True)
  apply (subst closure.simps, simp only: corner3_mine_pass3 fst_conv snd_conv if_False)
  apply (simp add: corner_mine_def)
  done

lemma corner3_safe_pass1:
  "closure_pass (corner3 1) = ((corner3 1)\<lparr>knowledge := [\<lparr>cells = {|(0, 1), (1, 1)|}, count = 1\<rparr>,
        \<lparr>cells = {|(0, 1), (1, 1)|}, count = 1\<rparr>,
        \<lparr>cells = {|(0, 1), (1, 1), (1, 2)|}, count = 1\<rparr>,
        \<lparr>cells = {|(1, 2)|}, count = 0\<rparr>]\<rparr>, True)"
  by (simp add: corner3_def pass_eval corner_sets)

lemma corner3_safe_pass2:
  "closure_pass ((corner3 1)\<lparr>knowledge := [\<lparr>cells = {|(0, 1), (1, 1)|}, count = 1\<rparr>,
        \<lparr>cells = {|(0, 1), (1, 1)|}, count = 1\<rparr>,
        \<lparr>cells = {|(0, 1), (1, 1), (1, 2)|}, count = 1\<rparr>,
        \<lparr>cells = {|(1, 2)|}, count = 0\<rparr>]\<rparr>) =
     (corner_safe\<lparr>knowledge := [\<lparr>cells = {|(0, 1), (1, 1)|}, count = 1\<rparr>,
        \<lparr>cells = {|(0, 1), (1, 1)|}, count = 1\<rparr>,
        \<lparr>cells = {|(0, 1), (1, 1)|}, count = 1\<rparr>,
        \<lparr>cells = {||}, count = 0\<rparr>]\<rparr>, True)"
  by (simp add: corner3_def corner_safe_def pass_eval corner_sets)

lemma corner3_safe_pass3:
  "closure_pass (corner_safe\<lparr>knowledge := [\<lparr>cells = {|(0, 1), (1, 1)|}, count = 1\<rparr>,
        \<lparr>cells = {|(0, 1), (1, 1)|}, count = 1\<rparr>,
        \<lparr>cells = {|(0, 1), (1, 1)|}, count = 1\<rparr>,
        \<lparr>cells = {||}, count = 0\<rparr>]\<rparr>) =
     (corner_safe\<lparr>knowledge := [\<lparr>cells = {|(0, 1), (1, 1)|}, count = 1\<rparr>,
        \<lparr>cells = {|(0, 1), (1, 1)|}, count = 1\<rparr>,
        \<lparr>cells = {|(0, 1), (1, 1)|}, count = 1\<rparr>,
        \<lparr>cells = {||}, count = 0\<rparr>]\<rparr>, False)"
  by (simp add: corner_safe_def pass_eval corner_sets)

lemma corner_call3_safe: "add_knowledge corner2 (0, 2) 1 = Some corner_safe"
  unfolding add_knowledge_def corner_add3
  apply (subst closure.simps, simp only: corner3_safe_pass1 fst_conv snd_conv if_True)
  apply (subst closure.simps, simp only: corner3_safe_pass2 fst_conv snd_conv if_True)
  apply (subst closure.simps, simp only: corner3_safe_pass3 fst_conv snd_conv if_False)
  apply (simp add: corner_safe_def)
  done

lemma fixed_point_closed:
  assumes "closure_pass s = (s, False)"
  shows "(A \<in> set (knowledge s) \<and> B \<in> set (knowledge s) \<and> cells A \<noteq> {||} \<and>
            cells A |\<subset>| cells B \<longrightarrow> subtract A B \<in> set (knowledge s)) \<and>
         (x \<in> set (knowledge s) \<longrightarrow>
            known_safes x |\<subseteq>| safes s \<and> known_mines x |\<subseteq>| mines s)"
proof -
  from assms have sf: "collect_safes (knowledge s) |\<subseteq>| safes s"
    and mn: "collect_mines (knowledge s) |\<subseteq>| mines s"
    and new: "infer_new (knowledge s) = []"
    by (simp_all add: pass_fixed_iff)
  have 1: "subtract A B \<in> set (knowledge s)"
    if "A \<in> set (knowledge s)" "B \<in> set (knowledge s)" "cells A \<noteq> {||}" "cells A |\<subset>| cells B"
  proof (rule ccontr)
    assume "subtract A B \<notin> set (knowledge s)"
    with that have "fires (knowledge s) A B" by (simp add: fires_def)
    with that have "subtract A B \<in> set (infer_new (knowledge s))"
      unfolding set_infer_new by blast
    with new show False by simp
  qed
  have 2: "known_safes x |\<subseteq>| safes s \<and> known_mines x |\<subseteq>| mines s"
    if "x \<in> set (knowledge s)"
  proof -
    from that have "known_safes x |\<subseteq>| collect_safes (knowledge s)"
      by (intro fsubsetI) (auto simp: collect_safes_iff)
    moreover from that have "known_mines x |\<subseteq>| collect_mines (knowledge s)"
      by (intro fsubsetI) (auto simp: collect_mines_iff)
    ultimately show ?thesis using sf mn by (meson fsubset_trans)
  qed
  from 1 2 show ?thesis by blast
qed

lemma add_knowledge_result_fixed:
  assumes "add_knowledge s c n = Some s'" shows "closure_pass s' = (s', False)"
proof -
  from assms obtain t where t: "closure (add_sentence s c n) = Some t"
    and s': "s' = t\<lparr>knowledge := filter (\<lambda>x. cells x \<noteq> {||}) (knowledge t)\<rparr>"
    by (auto simp: add_knowledge_def split: option.splits)
  from closure_result_fixed[OF t] show ?thesis
    unfolding s' by (rule pass_fixed_cleanup)
qed

lemma subset_rule_in_pass:
  assumes "A \<in> set (knowledge (marked s))" "B \<in> set (knowledge (marked s))"
    "cells A \<noteq> {||}" "cells A |\<subset>| cells B"
  shows "subtract A B \<in> set (knowledge (fst (closure_pass s)))"
proof -
  from assms(4) have "cells A |\<subseteq>| cells B" "cells (subtract A B) \<noteq> {||}"
    by (auto simp: subtract_def)
  with subset_rule_derives[OF assms(1,2,3)] show ?thesis
    unfolding knowledge_pass by blast
qed

lemma two_closure_known:
  assumes "distinct [c1, c2, c3]" "c3 |\<in>| mines s"
  shows "closure (s\<lparr>knowledge := [\<lparr>cells = {|c1, c2|}, count = 1\<rparr>, \<lparr>cells = {|c1, c2, c3|}, count = 2\<rparr>]\<rparr>) =
      Some (s\<lparr>knowledge := [\<lparr>cells = {|c1, c2|}, count = 1\<rparr>, \<lparr>cells = {|c1, c2, c3|}, count = 2\<rparr>, \<lparr>cells = {|c3|}, count = 1\<rparr>]\<rparr>)"
  apply (subst closure.simps, simp only: two_pass1[OF assms(1)] fst_conv snd_conv if_True)
  apply (subst closure.simps, simp only: two_pass2_known[OF assms] fst_conv snd_conv if_False)
  done

section \<open>The claims\<close>

text \<open>
  C1, as the code has it: the subset rule works on the sentences as they are after the
  marking loops of the pass. If the knowledge base then holds two sentences \<open>A\<close> and \<open>B\<close>
  with the cells of \<open>A\<close> a non-empty proper subset of the cells of \<open>B\<close>, the sentence
  \<open>(cells B - cells A, count B - count A)\<close> is in the knowledge base at the end of the pass.
  Every sentence in the knowledge base at the start of a pass has its known safes and known
  mines recorded by that pass. The state the loop returns, and the state \<open>add_knowledge\<close>
  returns, are closed under both rules. Concretely, from a knowledge base of just
  \<open>{p, q} = 1\<close> and \<open>{p, q, r} = 2\<close>, whatever else the state holds, the first pass derives
  \<open>{r} = 1\<close> and the loop ends with \<open>r\<close> added to \<open>mines\<close>; from just \<open>{p, q, r} = 1\<close> and
  \<open>{p, q} = 1\<close> it derives \<open>{r} = 0\<close> and the loop ends with \<open>r\<close> added to \<open>safes\<close>. The same
  happens through \<open>add_knowledge\<close> on a 2 x 3 board: after \<open>(1, 0) \<mapsto> 1\<close> and \<open>(0, 0) \<mapsto> 1\<close>,
  the observation \<open>(0, 2) \<mapsto> 2\<close> derives \<open>{(1, 2)} = 1\<close> and returns with \<open>(1, 2)\<close> in
  \<open>mines\<close>, and the observation \<open>(0, 2) \<mapsto> 1\<close> derives \<open>{(1, 2)} = 0\<close> and returns with
  \<open>(1, 2)\<close> in \<open>safes\<close>.
\<close>

theorem subset_inference:
  "(A \<in> set (knowledge (marked s)) \<and> B \<in> set (knowledge (marked s)) \<and>
      cells A \<noteq> {||} \<and> cells A |\<subset>| cells B \<longrightarrow>
      subtract A B \<in> set (knowledge (fst (closure_pass s)))) \<and>
   (x \<in> set (knowledge s) \<longrightarrow>
      known_safes x |\<subseteq>| safes (fst (closure_pass s)) \<and>
      known_mines x |\<subseteq>| mines (fst (closure_pass s))) \<and>
   (closure s = Some s' \<or> add_knowledge s c n = Some s' \<longrightarrow>
      (A \<in> set (knowledge s') \<and> B \<in> set (knowledge s') \<and>
         cells A \<noteq> {||} \<and> cells A |\<subset>| cells B \<longrightarrow> subtract A B \<in> set (knowledge s')) \<and>
      (x \<in> set (knowledge s') \<longrightarrow>
         known_safes x |\<subseteq>| safes s' \<and> known_mines x |\<subseteq>| mines s')) \<and>
   (distinct [p, q, r] \<longrightarrow>
      subtract \<lparr>cells = {|p, q|}, count = 1\<rparr> \<lparr>cells = {|p, q, r|}, count = 2\<rparr>
        = \<lparr>cells = {|r|}, count = 1\<rparr> \<and>
      \<lparr>cells = {|r|}, count = 1\<rparr> \<in> set (knowledge (fst (closure_pass
         (s\<lparr>knowledge := [\<lparr>cells = {|p, q|}, count = 1\<rparr>, \<lparr>cells = {|p, q, r|}, count = 2\<rparr>]\<rparr>)))) \<and>
      (\<exists>t. closure (s\<lparr>knowledge := [\<lparr>cells = {|p, q|}, count = 1\<rparr>,
                                        \<lparr>cells = {|p, q, r|}, count = 2\<rparr>]\<rparr>) = Some t \<and>
           r |\<in>| mines t \<and> mines t = finsert r (mines s) \<and> safes t = safes s) \<and>
      subtract \<lparr>cells = {|p, q|}, count = 1\<rparr> \<lparr>cells = {|p, q, r|}, count = 1\<rparr>
        = \<lparr>cells = {|r|}, count = 0\<rparr> \<and>
      \<lparr>cells = {|r|}, count = 0\<rparr> \<in> set (knowledge (fst (closure_pass
         (s\<lparr>knowledge := [\<lparr>cells = {|p, q, r|}, count = 1\<rparr>, \<lparr>cells = {|p, q|}, count = 1\<rparr>]\<rparr>)))) \<and>
      (\<exists>t. closure (s\<lparr>knowledge := [\<lparr>cells = {|p, q, r|}, count = 1\<rparr>,
                                        \<lparr>cells = {|p, q|}, count = 1\<rparr>]\<rparr>) = Some t \<and>
           r |\<in>| safes t \<and> safes t = finsert r (safes s) \<and> mines t = mines s)) \<and>
   add_knowledge_all (init_ai 2 3) [((1, 0), 1), ((0, 0), 1)] = Some corner2 \<and>
   \<lparr>cells = {|(1, 2)|}, count = 1\<rparr>
     \<in> set (knowledge (fst (closure_pass (add_sentence corner2 (0, 2) 2)))) \<and>
   add_knowledge corner2 (0, 2) 2 = Some corner_mine \<and> (1, 2) |\<in>| mines corner_mine \<and>
   \<lparr>cells = {|(1, 2)|}, count = 0\<rparr>
     \<in> set (knowledge (fst (closure_pass (add_sentence corner2 (0, 2) 1)))) \<and>
   add_knowledge corner2 (0, 2) 1 = Some corner_safe \<and> (1, 2) |\<in>| safes corner_safe"
proof (intro conjI impI)
  assume "A \<in> set (knowledge (marked s)) \<and> B \<in> set (knowledge (marked s)) \<and>
      cells A \<noteq> {||} \<and> cells A |\<subset>| cells B"
  then show "subtract A B \<in> set (knowledge (fst (closure_pass s)))"
    using subset_rule_in_pass by blast
next
  assume "x \<in> set (knowledge s)"
  then show "known_safes x |\<subseteq>| safes (fst (closure_pass s))"
    and "known_mines x |\<subseteq>| mines (fst (closure_pass s))"
    using pass_propagates by blast+
next
  assume r: "closure s = Some s' \<or> add_knowledge s c n = Some s'"
  then have f: "closure_pass s' = (s', False)"
    using closure_result_fixed add_knowledge_result_fixed by blast
  {
    assume "A \<in> set (knowledge s') \<and> B \<in> set (knowledge s') \<and>
         cells A \<noteq> {||} \<and> cells A |\<subset>| cells B"
    then show "subtract A B \<in> set (knowledge s')"
      using fixed_point_closed[OF f] by blast
  }
  {
    assume "x \<in> set (knowledge s')"
    then show "known_safes x |\<subseteq>| safes s'" and "known_mines x |\<subseteq>| mines s'"
      using fixed_point_closed[OF f] by blast+
  }
next
  assume d: "distinct [p, q, r]"
  then have "{|p, q, r|} |-| {|p, q|} = {|r|}" by auto
  then show "subtract \<lparr>cells = {|p, q|}, count = 1\<rparr> \<lparr>cells = {|p, q, r|}, count = 2\<rparr>
        = \<lparr>cells = {|r|}, count = 1\<rparr>"
    and "subtract \<lparr>cells = {|p, q|}, count = 1\<rparr> \<lparr>cells = {|p, q, r|}, count = 1\<rparr>
        = \<lparr>cells = {|r|}, count = 0\<rparr>"
    by (simp_all add: subtract_def)
  show "\<lparr>cells = {|r|}, count = 1\<rparr> \<in> set (knowledge (fst (closure_pass
         (s\<lparr>knowledge := [\<lparr>cells = {|p, q|}, count = 1\<rparr>, \<lparr>cells = {|p, q, r|}, count = 2\<rparr>]\<rparr>))))"
    by (simp add: two_pass1[OF d])
  show "\<exists>t. closure (s\<lparr>knowledge := [\<lparr>cells = {|p, q|}, count = 1\<rparr>,
                                        \<lparr>cells = {|p, q, r|}, count = 2\<rparr>]\<rparr>) = Some t \<and>
           r |\<in>| mines t \<and> mines t = finsert r (mines s) \<and> safes t = safes s"
    using two_closure[OF d, of s] by auto
  show "\<lparr>cells = {|r|}, count = 0\<rparr> \<in> set (knowledge (fst (closure_pass
         (s\<lparr>knowledge := [\<lparr>cells = {|p, q, r|}, count = 1\<rparr>, \<lparr>cells = {|p, q|}, count = 1\<rparr>]\<rparr>))))"
    by (simp add: rev_pass1[OF d])
  show "\<exists>t. closure (s\<lparr>knowledge := [\<lparr>cells = {|p, q, r|}, count = 1\<rparr>,
                                        \<lparr>cells = {|p, q|}, count = 1\<rparr>]\<rparr>) = Some t \<and>
           r |\<in>| safes t \<and> safes t = finsert r (safes s) \<and> mines t = mines s"
    using rev_closure[OF d, of s] by auto
next
  show "add_knowledge_all (init_ai 2 3) [((1, 0), 1), ((0, 0), 1)] = Some corner2"
    by (simp add: corner_call1 corner_call2)
  show "\<lparr>cells = {|(1, 2)|}, count = 1\<rparr>
     \<in> set (knowledge (fst (closure_pass (add_sentence corner2 (0, 2) 2))))"
    by (simp add: corner_add3 corner3_mine_pass1)
  show "add_knowledge corner2 (0, 2) 2 = Some corner_mine" by (rule corner_call3_mine)
  show "(1, 2) |\<in>| mines corner_mine" by (simp add: corner_mine_def)
  show "\<lparr>cells = {|(1, 2)|}, count = 0\<rparr>
     \<in> set (knowledge (fst (closure_pass (add_sentence corner2 (0, 2) 1))))"
    by (simp add: corner_add3 corner3_safe_pass1)
  show "add_knowledge corner2 (0, 2) 1 = Some corner_safe" by (rule corner_call3_safe)
  show "(1, 2) |\<in>| safes corner_safe" by (simp add: corner_safe_def)
qed

theorem subset_inference_witness:
  "\<lparr>cells = {|(0, 3)|}, count = 1\<rparr> \<in> set (knowledge (fst (closure_pass
      ((init_ai 1 4)\<lparr>knowledge := [\<lparr>cells = {|(0, 1), (0, 2)|}, count = 1\<rparr>,
                                      \<lparr>cells = {|(0, 1), (0, 2), (0, 3)|}, count = 2\<rparr>]\<rparr>)))) \<and>
   {|(0, 3)|} |\<subseteq>| mines (fst (closure_pass (fst (closure_pass
      ((init_ai 1 4)\<lparr>knowledge := [\<lparr>cells = {|(0, 1), (0, 2)|}, count = 1\<rparr>,
                                      \<lparr>cells = {|(0, 1), (0, 2), (0, 3)|}, count = 2\<rparr>]\<rparr>))))) \<and>
   closure ((init_ai 1 4)\<lparr>mines := {|(0, 3)|},
        knowledge := [\<lparr>cells = {|(0, 1), (0, 2)|}, count = 1\<rparr>,
                      \<lparr>cells = {|(0, 1), (0, 2), (0, 3)|}, count = 2\<rparr>]\<rparr>) =
     Some ((init_ai 1 4)\<lparr>mines := {|(0, 3)|},
        knowledge := [\<lparr>cells = {|(0, 1), (0, 2)|}, count = 1\<rparr>,
                      \<lparr>cells = {|(0, 1), (0, 2), (0, 3)|}, count = 2\<rparr>,
                      \<lparr>cells = {|(0, 3)|}, count = 1\<rparr>]\<rparr>) \<and>
   subtract \<lparr>cells = {|(0, 1), (0, 2)|}, count = 1\<rparr> \<lparr>cells = {|(0, 1), (0, 2), (0, 3)|}, count = 2\<rparr>
     \<in> set (knowledge ((init_ai 1 4)\<lparr>mines := {|(0, 3)|},
        knowledge := [\<lparr>cells = {|(0, 1), (0, 2)|}, count = 1\<rparr>,
                      \<lparr>cells = {|(0, 1), (0, 2), (0, 3)|}, count = 2\<rparr>,
                      \<lparr>cells = {|(0, 3)|}, count = 1\<rparr>]\<rparr>)) \<and>
   closure ((init_ai 1 4)\<lparr>knowledge := [\<lparr>cells = {|(0, 1), (0, 2)|}, count = 1\<rparr>,
                                          \<lparr>cells = {|(0, 1), (0, 2), (0, 3)|}, count = 2\<rparr>]\<rparr>) \<noteq> None \<and>
   closure ((init_ai 1 4)\<lparr>knowledge := [\<lparr>cells = {|(0, 1), (0, 2), (0, 3)|}, count = 1\<rparr>,
                                          \<lparr>cells = {|(0, 1), (0, 2)|}, count = 1\<rparr>]\<rparr>) \<noteq> None"
proof -
  let ?A = "\<lparr>cells = {|(0, 1), (0, 2)|}, count = 1\<rparr>"
  let ?B = "\<lparr>cells = {|(0, 1), (0, 2), (0, 3)|}, count = 2\<rparr>"
  let ?x = "\<lparr>cells = {|(0, 3)|}, count = 1\<rparr>"
  let ?s = "(init_ai 1 4)\<lparr>knowledge := [?A, ?B]\<rparr>"
  let ?u = "(init_ai 1 4)\<lparr>mines := {|(0, 3)|}\<rparr>"
  let ?uF = "(init_ai 1 4)\<lparr>mines := {|(0, 3)|}, knowledge := [?A, ?B, ?x]\<rparr>"
  have d: "distinct [(0, 1), (0, 2), (0, 3 :: int) :: cell]" by simp
  have lt: "cells ?A \<noteq> {||}" "cells ?A |\<subset>| cells ?B"
    using fset_neqI[of "(0, 3 :: int) :: cell" "{|(0, 1), (0, 2), (0, 3)|}" "{|(0, 1), (0, 2)|}"]
    by (auto simp: less_le)
  have m: "knowledge (marked ?s) = [?A, ?B]"
    by (simp add: init_ai_def pass_eval)
  have sub: "subtract ?A ?B = ?x" using d by (auto simp: subtract_def)
  have 1: "?x \<in> set (knowledge (fst (closure_pass ?s)))"
    using subset_inference[of ?A ?s ?B] m sub lt by simp
  have 2: "known_mines ?x |\<subseteq>| mines (fst (closure_pass (fst (closure_pass ?s))))"
    using subset_inference[of _ "fst (closure_pass ?s)" _ ?x] 1 by blast
  have 3: "known_mines ?x = {|(0, 3)|}"
    by (simp add: known_mines_def fcard_finsert_if fcard_fempty)
  have c: "closure (?u\<lparr>knowledge := [?A, ?B]\<rparr>) = Some (?u\<lparr>knowledge := [?A, ?B, ?x]\<rparr>)"
    by (rule two_closure_known[OF d]) (simp add: init_ai_def)
  have 4: "subtract ?A ?B \<in> set (knowledge (?u\<lparr>knowledge := [?A, ?B, ?x]\<rparr>))"
    using subset_inference[of ?A "?u\<lparr>knowledge := [?A, ?B]\<rparr>" ?B _ "?u\<lparr>knowledge := [?A, ?B, ?x]\<rparr>"] c lt
    by simp
  have 5: "closure ?s \<noteq> None"
    "closure ((init_ai 1 4)\<lparr>knowledge := [\<lparr>cells = {|(0, 1), (0, 2), (0, 3)|}, count = 1\<rparr>, ?A]\<rparr>) \<noteq> None"
    using subset_inference[of _ "init_ai 1 4" _ _ _ _ _ "(0, 1)" "(0, 2)" "(0, 3)",
        THEN conjunct2, THEN conjunct2, THEN conjunct2, THEN conjunct1, rule_format, OF d]
    by auto
  from 1 2 3 c 4 5 show ?thesis by simp
qed

text \<open>
  C1 as stated fails: the knowledge base may hold \<open>A\<close> and \<open>B\<close> and the loop never derive
  \<open>(cells B - cells A, count B - count A)\<close>, because the marking loops rewrite the sentences
  first. From \<open>{(0, 1), (0, 2)} = 1\<close>, \<open>{(0, 1), (0, 2), (0, 3), (0, 4)} = 2\<close> and
  \<open>{(0, 3)} = 1\<close> the loop ends after three passes and \<open>{(0, 3), (0, 4)} = 1\<close> is in none of
  the knowledge bases on the way. From \<open>{(0, 1), (0, 2)} = 1\<close>, \<open>{(0, 1), (0, 2), (0, 3)} = 2\<close>
  and \<open>{(0, 3)} = 0\<close> the sentence \<open>{(0, 3)} = 1\<close> is never derived and \<open>(0, 3)\<close> ends in
  \<open>safes\<close>, not in \<open>mines\<close>.
\<close>

theorem subset_inference_counterexample:
  "\<lparr>cells = {|(0, 1), (0, 2)|}, count = 1\<rparr> \<in> set (knowledge preempted0) \<and>
   \<lparr>cells = {|(0, 1), (0, 2), (0, 3), (0, 4)|}, count = 2\<rparr> \<in> set (knowledge preempted0) \<and>
   {|(0, 1), (0, 2)|} |\<subseteq>| {|(0, 1), (0, 2), (0, 3), (0, 4 :: int) :: cell|} \<and>
   closure_pass preempted0 = (preempted1, True) \<and>
   closure_pass preempted1 = (preempted2, True) \<and>
   closure_pass preempted2 = (preempted2, False) \<and>
   closure preempted0 = Some preempted2 \<and>
   \<lparr>cells = {|(0, 3), (0, 4)|}, count = 1\<rparr> \<notin> set (knowledge preempted0) \<and>
   \<lparr>cells = {|(0, 3), (0, 4)|}, count = 1\<rparr> \<notin> set (knowledge preempted1) \<and>
   \<lparr>cells = {|(0, 3), (0, 4)|}, count = 1\<rparr> \<notin> set (knowledge preempted2) \<and>
   \<lparr>cells = {|(0, 1), (0, 2)|}, count = 1\<rparr> \<in> set (knowledge contrary0) \<and>
   \<lparr>cells = {|(0, 1), (0, 2), (0, 3)|}, count = 2\<rparr> \<in> set (knowledge contrary0) \<and>
   closure_pass contrary0 = (contrary1, True) \<and>
   closure_pass contrary1 = (contrary2, True) \<and>
   closure_pass contrary2 = (contrary2, False) \<and>
   closure contrary0 = Some contrary2 \<and>
   \<lparr>cells = {|(0, 3)|}, count = 1\<rparr> \<notin> set (knowledge contrary0) \<and>
   \<lparr>cells = {|(0, 3)|}, count = 1\<rparr> \<notin> set (knowledge contrary1) \<and>
   \<lparr>cells = {|(0, 3)|}, count = 1\<rparr> \<notin> set (knowledge contrary2) \<and>
   (0, 3) |\<in>| safes contrary2 \<and> (0, 3) |\<notin>| mines contrary2"
proof -
  have n: "{|(0, 3), (0, 4)|} \<noteq> {|(0, 1), (0, 2 :: int) :: cell|}"
    "{|(0, 3), (0, 4)|} \<noteq> {|(0, 1), (0, 2), (0, 3), (0, 4 :: int) :: cell|}"
    "{|(0, 3), (0, 4)|} \<noteq> {|(0, 3 :: int) :: cell|}"
    "{|(0, 3), (0, 4)|} \<noteq> {|(0, 1), (0, 2), (0, 4 :: int) :: cell|}"
    "{|(0, 3), (0, 4)|} \<noteq> {|(0, 4 :: int) :: cell|}"
    "{|(0, 3)|} \<noteq> {|(0, 1), (0, 2 :: int) :: cell|}"
    "{|(0, 3)|} \<noteq> {|(0, 1), (0, 2), (0, 3 :: int) :: cell|}"
    using fset_neqI[of "(0, 3 :: int) :: cell" "{|(0, 3), (0, 4)|}" "{|(0, 1), (0, 2)|}"]
      fset_neqI[of "(0, 1 :: int) :: cell" "{|(0, 1), (0, 2), (0, 3), (0, 4)|}" "{|(0, 3), (0, 4)|}"]
      fset_neqI[of "(0, 4 :: int) :: cell" "{|(0, 3), (0, 4)|}" "{|(0, 3)|}"]
      fset_neqI[of "(0, 3 :: int) :: cell" "{|(0, 3), (0, 4)|}" "{|(0, 1), (0, 2), (0, 4)|}"]
      fset_neqI[of "(0, 3 :: int) :: cell" "{|(0, 3), (0, 4)|}" "{|(0, 4)|}"]
      fset_neqI[of "(0, 3 :: int) :: cell" "{|(0, 3)|}" "{|(0, 1), (0, 2)|}"]
      fset_neqI[of "(0, 1 :: int) :: cell" "{|(0, 1), (0, 2), (0, 3)|}" "{|(0, 3)|}"]
    by simp_all
  show ?thesis
    by (simp add: preempted_pass1 preempted_pass2 preempted_pass3 preempted_closure
        contrary_pass1 contrary_pass2 contrary_pass3 contrary_closure)
      (simp add: preempted0_def preempted1_def preempted2_def contrary0_def contrary1_def
        contrary2_def init_ai_def n)
qed

text \<open>
  C2, as the code has it: the loop ends whenever the knowledge base it starts from is
  consistent with some mine layout \<open>M\<close> (no known safe cell is a mine of \<open>M\<close>, every known
  mine is one, every sentence's count is the number of its cells in \<open>M\<close>); so every call
  of \<open>add_knowledge\<close> on a consistent state with a cell that is not a mine and the count
  the board reports returns. No iteration cap is involved.
\<close>

theorem closure_terminates_when_consistent:
  "consistent M s \<longrightarrow>
     (\<exists>s'. closure s = Some s') \<and>
     (c |\<notin>| M \<longrightarrow> (\<exists>s'. add_knowledge s c (nearby_mines (height s) (width s) M c) = Some s'))"
  using closure_terminates add_knowledge_sound by blast

theorem closure_terminates_when_consistent_witness:
  "consistent {|(0, 2)|} (init_ai 1 3) \<and> (0, 0) |\<notin>| {|(0, 2 :: int) :: cell|} \<and>
   closure (init_ai 1 3) \<noteq> None \<and>
   add_knowledge (init_ai 1 3) (0, 0) (nearby_mines 1 3 {|(0, 2)|} (0, 0)) \<noteq> None"
proof -
  have c: "consistent {|(0, 2)|} (init_ai 1 3)"
    by (simp add: consistent_def init_ai_def)
  have n: "(0, 0) |\<notin>| {|(0, 2 :: int) :: cell|}" by simp
  have hw: "height (init_ai 1 3) = 1" "width (init_ai 1 3) = 3" by (simp_all add: init_ai_def)
  from closure_terminates_when_consistent[of "{|(0, 2)|}" "init_ai 1 3" "(0, 0)"] c n
  show ?thesis by (auto simp: hw)
qed

text \<open>
  C2 as stated fails: on a 2 x 3 board the observations \<open>(0, 1) \<mapsto> 2\<close> and \<open>(1, 1) \<mapsto> 6\<close>
  are accepted, and the call for \<open>(0, 0) \<mapsto> 3\<close> never leaves the loop: every pass appends
  a new sentence.
\<close>

theorem closure_diverges_counterexample:
  "add_knowledge (init_ai 2 3) (0, 1) 2 = Some board1 \<and>
   add_knowledge board1 (1, 1) 6 = Some board2 \<and>
   add_knowledge board2 (0, 0) 3 = None"
  by (simp add: board_call1 board_call2 board_call3)

text \<open>
  C3, as the code has it: in a state consistent with a mine layout \<open>M\<close> every sentence has
  \<open>0 \<le> count \<le> |cells|\<close>, and consistency is kept by \<open>mark_safe\<close> of a cell that is not a
  mine, by \<open>mark_mine\<close> of a mine, by every pass of the loop, by the sentence
  \<open>add_knowledge\<close> appends for a cell that is not a mine with the count the board reports,
  and by that whole call, which returns.
\<close>

theorem sentence_bounds_when_consistent:
  "consistent M s \<longrightarrow>
     (\<forall>x \<in> set (knowledge s). in_range x) \<and>
     (c |\<notin>| M \<longrightarrow> consistent M (mark_safe c s)) \<and>
     (c |\<in>| M \<longrightarrow> consistent M (mark_mine c s)) \<and>
     consistent M (fst (closure_pass s)) \<and>
     (c |\<notin>| M \<longrightarrow>
        consistent M (add_sentence s c (nearby_mines (height s) (width s) M c)) \<and>
        (\<exists>s'. add_knowledge s c (nearby_mines (height s) (width s) M c) = Some s' \<and>
              consistent M s'))"
proof
  assume c: "consistent M s"
  have "\<forall>x \<in> set (knowledge s). in_range x"
    using c holds_bounds unfolding consistent_def in_range_def by blast
  then show "(\<forall>x \<in> set (knowledge s). in_range x) \<and>
     (c |\<notin>| M \<longrightarrow> consistent M (mark_safe c s)) \<and>
     (c |\<in>| M \<longrightarrow> consistent M (mark_mine c s)) \<and>
     consistent M (fst (closure_pass s)) \<and>
     (c |\<notin>| M \<longrightarrow>
        consistent M (add_sentence s c (nearby_mines (height s) (width s) M c)) \<and>
        (\<exists>s'. add_knowledge s c (nearby_mines (height s) (width s) M c) = Some s' \<and>
              consistent M s'))"
    using consistent_mark_safe[OF c] consistent_mark_mine[OF c] consistent_pass[OF c]
      consistent_add_sentence[OF c] add_knowledge_sound[OF c]
    by blast
qed

theorem sentence_bounds_when_consistent_witness:
  "consistent {|(0, 2)|} row0 \<and>
   in_range \<lparr>cells = {|(0, 1), (0, 2)|}, count = 1\<rparr> \<and>
   consistent {|(0, 2)|} (mark_safe (0, 0) row0) \<and>
   consistent {|(0, 2)|} (mark_mine (0, 2) row0) \<and>
   consistent {|(0, 2)|} (fst (closure_pass row0)) \<and>
   add_knowledge row0 (0, 0) (nearby_mines 1 3 {|(0, 2)|} (0, 0)) \<noteq> None"
proof -
  have hw: "height row0 = 1" "width row0 = 3" "knowledge row0 = [\<lparr>cells = {|(0, 1), (0, 2)|}, count = 1\<rparr>]"
    by (simp_all add: row0_def init_ai_def)
  have n: "(0, 0) |\<notin>| {|(0, 2 :: int) :: cell|}" "(0, 2) |\<in>| {|(0, 2 :: int) :: cell|}" by simp_all
  from sentence_bounds_when_consistent[of "{|(0, 2)|}" row0 "(0, 0)"]
    sentence_bounds_when_consistent[of "{|(0, 2)|}" row0 "(0, 2)"] row0_consistent n
  show ?thesis by (auto simp: hw)
qed

text \<open>
  C3 as stated fails: \<open>add_knowledge\<close> stores a sentence with count 5 over one cell;
  \<open>mark_mine\<close> takes the sentence \<open>{(0, 1)} = 0\<close> to count \<open>-1\<close>; \<open>mark_safe\<close> takes
  \<open>{(0, 1)} = 1\<close> to a count of 1 over no cell.
\<close>

theorem sentence_bounds_counterexample:
  "add_knowledge (init_ai 1 2) (0, 0) 5 =
     Some \<lparr>height = 1, width = 2, moves_made = {|(0, 0)|}, mines = {||}, safes = {|(0, 0)|},
           knowledge = [\<lparr>cells = {|(0, 1)|}, count = 5\<rparr>]\<rparr> \<and>
   \<not> in_range \<lparr>cells = {|(0, 1)|}, count = 5\<rparr> \<and>
   in_range \<lparr>cells = {|(0, 1)|}, count = 0\<rparr> \<and>
   knowledge (mark_mine (0, 1) ((init_ai 1 2)\<lparr>knowledge := [\<lparr>cells = {|(0, 1)|}, count = 0\<rparr>]\<rparr>))
     = [\<lparr>cells = {||}, count = - 1\<rparr>] \<and>
   \<not> in_range \<lparr>cells = {||}, count = - 1\<rparr> \<and>
   in_range \<lparr>cells = {|(0, 1)|}, count = 1\<rparr> \<and>
   knowledge (mark_safe (0, 1) ((init_ai 1 2)\<lparr>knowledge := [\<lparr>cells = {|(0, 1)|}, count = 1\<rparr>]\<rparr>))
     = [\<lparr>cells = {||}, count = 1\<rparr>] \<and>
   \<not> in_range \<lparr>cells = {||}, count = 1\<rparr>"
proof -
  have "add_knowledge (init_ai 1 2) (0, 0) 5 =
     Some \<lparr>height = 1, width = 2, moves_made = {|(0, 0)|}, mines = {||}, safes = {|(0, 0)|},
           knowledge = [\<lparr>cells = {|(0, 1)|}, count = 5\<rparr>]\<rparr>"
    unfolding add_knowledge_def ex_add_sentence
    by (subst closure.simps) (simp add: ex_pass)
  then show ?thesis
    by (simp add: in_range_def fcard_finsert_if fcard_fempty mark_mine_def mark_safe_def
        sentence_mark_mine_def sentence_mark_safe_def init_ai_def)
qed

text \<open>
  C4, as the code has it: over any run of \<open>add_knowledge\<close> calls \<open>safes\<close> and \<open>mines\<close> only
  grow; and when the state is consistent with a mine layout and the observations are
  truthful, the run returns and \<open>safes\<close> and \<open>mines\<close> are disjoint after it.
\<close>

theorem safes_mines_monotone:
  "(add_knowledge_all s obs = Some s' \<longrightarrow> safes s |\<subseteq>| safes s' \<and> mines s |\<subseteq>| mines s') \<and>
   (consistent M s \<and> truthful M s obs \<longrightarrow>
      (\<exists>t. add_knowledge_all s obs = Some t \<and> consistent M t \<and> safes t |\<inter>| mines t = {||}))"
  using add_knowledge_all_mono[of s obs s'] add_knowledge_all_sound[of M s obs] consistent_disjoint[of M]
  by blast

theorem safes_mines_monotone_witness:
  "add_knowledge_all (init_ai 2 2) [((0, 0), 2), ((0, 1), 0)] = Some square2 \<and>
   safes (init_ai 2 2) |\<subseteq>| safes square2 \<and> mines (init_ai 2 2) |\<subseteq>| mines square2 \<and>
   consistent {|(0, 2)|} (init_ai 1 3) \<and>
   truthful {|(0, 2)|} (init_ai 1 3) [((0, 0), 0), ((0, 1), 1)] \<and>
   add_knowledge_all (init_ai 1 3) [((0, 0), 0), ((0, 1), 1)] \<noteq> None"
proof -
  have run: "add_knowledge_all (init_ai 2 2) [((0, 0), 2), ((0, 1), 0)] = Some square2"
    by (simp add: sq_call1 sq_call2)
  have c: "consistent {|(0, 2)|} (init_ai 1 3)"
    by (simp add: consistent_def init_ai_def)
  have t: "truthful {|(0, 2)|} (init_ai 1 3) [((0, 0), 0), ((0, 1), 1)]"
    by (simp add: truthful_def init_ai_def nearby_mines_def nearby_row_00 nearby_row_01)
  from safes_mines_monotone[of "init_ai 2 2" "[((0, 0), 2), ((0, 1), 0)]" square2]
    safes_mines_monotone[of "init_ai 1 3" "[((0, 0), 0), ((0, 1), 1)]" _ "{|(0, 2)|}"] run c t
  show ?thesis by auto
qed

text \<open>
  C4 as stated fails: on a 2 x 2 board, after the observations \<open>(0, 0) \<mapsto> 2\<close> and
  \<open>(0, 1) \<mapsto> 0\<close> the cell \<open>(1, 0)\<close> is in \<open>safes\<close> and in \<open>mines\<close>.
\<close>

theorem safes_mines_disjoint_counterexample:
  "add_knowledge_all (init_ai 2 2) [((0, 0), 2), ((0, 1), 0)] = Some square2 \<and>
   (1, 0) |\<in>| safes square2 \<and> (1, 0) |\<in>| mines square2"
  by (simp add: sq_call1 sq_call2) (simp add: square2_def)

text \<open>
  C5, as the code has it: \<open>mark_mine\<close> adds the cell to \<open>mines\<close>, leaves \<open>safes\<close> as it
  is and applies \<open>Sentence.mark_mine\<close> to every sentence, whether or not the cell is
  already in \<open>safes\<close>; \<open>mark_safe\<close> is symmetric. Neither has a failure path.
\<close>

theorem mark_unchecked:
  "mines (mark_mine c s) = finsert c (mines s) \<and> safes (mark_mine c s) = safes s \<and>
   knowledge (mark_mine c s) = map (sentence_mark_mine c) (knowledge s) \<and>
   safes (mark_safe c s) = finsert c (safes s) \<and> mines (mark_safe c s) = mines s \<and>
   knowledge (mark_safe c s) = map (sentence_mark_safe c) (knowledge s)"
  by (simp add: mark_mine_def mark_safe_def)

text \<open>
  C5 as stated fails: marking a known safe cell as a mine is accepted and the cell ends up
  in both sets, and the same for marking a known mine as safe.
\<close>

theorem mark_contradiction_counterexample:
  "(0, 0) |\<in>| safes ((init_ai 1 2)\<lparr>safes := {|(0, 0)|}\<rparr>) \<and>
   (0, 0) |\<in>| mines (mark_mine (0, 0) ((init_ai 1 2)\<lparr>safes := {|(0, 0)|}\<rparr>)) \<and>
   (0, 0) |\<in>| safes (mark_mine (0, 0) ((init_ai 1 2)\<lparr>safes := {|(0, 0)|}\<rparr>)) \<and>
   (0, 1) |\<in>| mines ((init_ai 1 2)\<lparr>mines := {|(0, 1)|}\<rparr>) \<and>
   (0, 1) |\<in>| safes (mark_safe (0, 1) ((init_ai 1 2)\<lparr>mines := {|(0, 1)|}\<rparr>)) \<and>
   (0, 1) |\<in>| mines (mark_safe (0, 1) ((init_ai 1 2)\<lparr>mines := {|(0, 1)|}\<rparr>))"
  by (simp add: mark_mine_def mark_safe_def init_ai_def)

text \<open>
  C6, as the code has it: the adjusted count is not checked. The sentence appended is the
  set of undetermined neighbours with the count minus the number of neighbours known to be
  mines, whatever that number is; nothing is appended only when no neighbour is
  undetermined.
\<close>

theorem add_sentence_unchecked:
  "knowledge (add_sentence s c n) =
     map (sentence_mark_safe c) (knowledge s) @
       (if neighbors s c \<noteq> {||}
        then [\<lparr>cells = neighbors s c,
               count = n - int (length (filter (\<lambda>m. m |\<in>| mines s) (nearby (height s) (width s) c)))\<rparr>]
        else [])"
proof -
  have nb: "neighbors (mark_safe c (s\<lparr>moves_made := finsert c (moves_made s)\<rparr>)) c = neighbors s c"
    by (rule neighbors_mark_safe)
  show ?thesis
    unfolding add_sentence_def Let_def nb
    by (simp add: adjust_count_def mark_safe_def zero_less_iff_neq_zero)
qed

text \<open>
  C6 as stated fails: on a fresh 1 x 2 board, observing count 5 at \<open>(0, 0)\<close>, which has one
  neighbour, succeeds and stores the sentence \<open>{(0, 1)} = 5\<close>.
\<close>

theorem count_out_of_range_counterexample:
  "add_knowledge (init_ai 1 2) (0, 0) 5 =
     Some \<lparr>height = 1, width = 2, moves_made = {|(0, 0)|}, mines = {||}, safes = {|(0, 0)|},
           knowledge = [\<lparr>cells = {|(0, 1)|}, count = 5\<rparr>]\<rparr>"
  unfolding add_knowledge_def ex_add_sentence
  by (subst closure.simps) (simp add: ex_pass)

text \<open>
  C7, as the code has it: \<open>add_knowledge\<close> does not look at whether the cell was already
  revealed or lies on the board. The only way it does not return is that the loop never
  ends; whenever it returns, the cell has been added to \<open>moves_made\<close> and is in \<open>safes\<close>.
\<close>

theorem add_knowledge_unchecked:
  "(add_knowledge s c n = None \<longleftrightarrow> closure (add_sentence s c n) = None) \<and>
   (add_knowledge s c n = Some s' \<longrightarrow>
      moves_made s' = finsert c (moves_made s) \<and> c |\<in>| safes s')"
proof -
  have "add_knowledge s c n = Some s' \<longrightarrow>
      moves_made s' = finsert c (moves_made s) \<and> c |\<in>| safes s'"
    using add_knowledge_frame[of s c n s'] by auto
  then show ?thesis by (simp add: add_knowledge_def split: option.splits)
qed

theorem add_knowledge_unchecked_witness:
  "add_knowledge (init_ai 1 1) (5, 5) 0 =
     Some ((init_ai 1 1)\<lparr>moves_made := {|(5, 5)|}, safes := {|(5, 5)|}\<rparr>) \<and>
   moves_made ((init_ai 1 1)\<lparr>moves_made := {|(5, 5)|}, safes := {|(5, 5)|}\<rparr>)
     = finsert (5, 5) (moves_made (init_ai 1 1)) \<and>
   (5, 5) |\<in>| safes ((init_ai 1 1)\<lparr>moves_made := {|(5, 5)|}, safes := {|(5, 5)|}\<rparr>)"
  using add_knowledge_unchecked[of "init_ai 1 1" "(5, 5)" 0
      "(init_ai 1 1)\<lparr>moves_made := {|(5, 5)|}, safes := {|(5, 5)|}\<rparr>"] ex_oob
  by blast

text \<open>
  C7 as stated fails: a second observation for the revealed cell \<open>(0, 0)\<close> is accepted and
  appends a sentence, and an observation for the cell \<open>(5, 5)\<close> of a 1 x 1 board is
  accepted and recorded in \<open>moves_made\<close> and \<open>safes\<close>.
\<close>

theorem invalid_move_counterexample:
  "(0, 0) |\<in>| moves_made \<lparr>height = 1, width = 2, moves_made = {|(0, 0)|}, mines = {||},
       safes = {|(0, 0)|}, knowledge = [\<lparr>cells = {|(0, 1)|}, count = 5\<rparr>]\<rparr> \<and>
   add_knowledge \<lparr>height = 1, width = 2, moves_made = {|(0, 0)|}, mines = {||},
       safes = {|(0, 0)|}, knowledge = [\<lparr>cells = {|(0, 1)|}, count = 5\<rparr>]\<rparr> (0, 0) 3 =
     Some \<lparr>height = 1, width = 2, moves_made = {|(0, 0)|}, mines = {||}, safes = {|(0, 0)|},
       knowledge = [\<lparr>cells = {|(0, 1)|}, count = 5\<rparr>, \<lparr>cells = {|(0, 1)|}, count = 3\<rparr>]\<rparr> \<and>
   add_knowledge (init_ai 1 1) (5, 5) 0 =
     Some ((init_ai 1 1)\<lparr>moves_made := {|(5, 5)|}, safes := {|(5, 5)|}\<rparr>)"
proof -
  have "add_knowledge \<lparr>height = 1, width = 2, moves_made = {|(0, 0)|}, mines = {||},
       safes = {|(0, 0)|}, knowledge = [\<lparr>cells = {|(0, 1)|}, count = 5\<rparr>]\<rparr> (0, 0) 3 =
     Some \<lparr>height = 1, width = 2, moves_made = {|(0, 0)|}, mines = {||}, safes = {|(0, 0)|},
       knowledge = [\<lparr>cells = {|(0, 1)|}, count = 5\<rparr>, \<lparr>cells = {|(0, 1)|}, count = 3\<rparr>]\<rparr>"
    unfolding add_knowledge_def ex_add_again
    by (subst closure.simps) (simp add: ex_pass_again)
  then show ?thesis by (simp add: ex_oob)
qed

text \<open>
  C8: \<open>make_random_move\<close> returns a cell exactly when that cell lies on the board and is
  neither in \<open>moves_made\<close> nor in \<open>mines\<close>, and returns \<open>None\<close> exactly when no such cell
  exists; the state is the same afterwards.
\<close>

theorem make_random_move_spec:
  "make_random_move s (r, s') \<longleftrightarrow>
     s' = s \<and>
     (case r of
        Some c \<Rightarrow> 0 \<le> fst c \<and> fst c < height s \<and> 0 \<le> snd c \<and> snd c < width s
                  \<and> c |\<notin>| moves_made s \<and> c |\<notin>| mines s
      | None \<Rightarrow> (\<forall>i j. 0 \<le> i \<and> i < height s \<and> 0 \<le> j \<and> j < width s
                  \<longrightarrow> (i, j) |\<in>| moves_made s \<or> (i, j) |\<in>| mines s))"
proof (cases r)
  case None
  have "choices s = {||} \<longleftrightarrow> (\<forall>i j. (i, j) |\<in>| all_moves s \<longrightarrow> (i, j) |\<in>| moves_made s \<or> (i, j) |\<in>| mines s)"
    by (auto simp: choices_def)
  with None show ?thesis by (auto simp: make_random_move_def all_moves_iff)
next
  case (Some c)
  obtain i j where "c = (i, j)" by (cases c)
  with Some show ?thesis by (auto simp: make_random_move_def choices_def all_moves_iff)
qed

theorem make_random_move_spec_witness:
  "make_random_move ((init_ai 1 2)\<lparr>moves_made := {|(0, 0)|}\<rparr>)
     (Some (0, 1), (init_ai 1 2)\<lparr>moves_made := {|(0, 0)|}\<rparr>) \<and>
   \<not> make_random_move ((init_ai 1 2)\<lparr>moves_made := {|(0, 0)|}\<rparr>)
     (Some (0, 0), (init_ai 1 2)\<lparr>moves_made := {|(0, 0)|}\<rparr>) \<and>
   \<not> make_random_move ((init_ai 1 2)\<lparr>moves_made := {|(0, 0)|}\<rparr>)
     (None, (init_ai 1 2)\<lparr>moves_made := {|(0, 0)|}\<rparr>) \<and>
   make_random_move ((init_ai 1 2)\<lparr>moves_made := {|(0, 0)|}, mines := {|(0, 1)|}\<rparr>)
     (None, (init_ai 1 2)\<lparr>moves_made := {|(0, 0)|}, mines := {|(0, 1)|}\<rparr>)"
proof -
  have "\<forall>i j :: int. 0 \<le> i \<and> i < 1 \<and> 0 \<le> j \<and> j < 2 \<longrightarrow> j = 0 \<or> j = 1"
    by arith
  moreover have "\<exists>i\<ge>0::int. i < 1 \<and> (\<exists>j\<ge>0::int. j < 2 \<and> j \<noteq> 0)"
    by (intro exI[of _ 0] conjI exI[of _ 1]) simp_all
  ultimately show ?thesis
    by (simp add: make_random_move_spec init_ai_def)
qed

text \<open>
  C9: a state the closure loop has returned is a fixed point of the pass: one more pass
  reports no update and returns the very same state (no cell added to \<open>safes\<close> or \<open>mines\<close>,
  no sentence appended), so the loop run again returns it at once. The same holds for the
  state \<open>add_knowledge\<close> returns, after the empty sentences have been removed.
\<close>

theorem closure_idempotent:
  "(closure s = Some s' \<longrightarrow> closure_pass s' = (s', False) \<and> closure s' = Some s') \<and>
   (add_knowledge s c n = Some s' \<longrightarrow> closure_pass s' = (s', False) \<and> closure s' = Some s')"
proof -
  have again: "closure t = Some t" if "closure_pass t = (t, False)" for t
    using that by (subst closure.simps) simp
  have 1: "closure s = Some s' \<longrightarrow> closure_pass s' = (s', False) \<and> closure s' = Some s'"
    using closure_result_fixed again by blast
  have 2: "add_knowledge s c n = Some s' \<longrightarrow> closure_pass s' = (s', False) \<and> closure s' = Some s'"
  proof
    assume "add_knowledge s c n = Some s'"
    then obtain t where t: "closure (add_sentence s c n) = Some t"
      and s': "s' = t\<lparr>knowledge := filter (\<lambda>x. cells x \<noteq> {||}) (knowledge t)\<rparr>"
      by (auto simp: add_knowledge_def split: option.splits)
    from closure_result_fixed[OF t] have "closure_pass s' = (s', False)"
      unfolding s' by (rule pass_fixed_cleanup)
    with again show "closure_pass s' = (s', False) \<and> closure s' = Some s'" by blast
  qed
  from 1 2 show ?thesis ..
qed

theorem closure_idempotent_witness:
  "closure (scenario1 (0, 1) (0, 2) (0, 3) (init_ai 1 4)) =
     Some ((init_ai 1 4)\<lparr>mines := {|(0, 3)|}, safes := {||},
       knowledge := [\<lparr>cells = {|(0, 1), (0, 2)|}, count = 1\<rparr>,
                     \<lparr>cells = {|(0, 1), (0, 2)|}, count = 1\<rparr>, \<lparr>cells = {||}, count = 0\<rparr>]\<rparr>) \<and>
   closure ((init_ai 1 4)\<lparr>mines := {|(0, 3)|}, safes := {||},
       knowledge := [\<lparr>cells = {|(0, 1), (0, 2)|}, count = 1\<rparr>,
                     \<lparr>cells = {|(0, 1), (0, 2)|}, count = 1\<rparr>, \<lparr>cells = {||}, count = 0\<rparr>]\<rparr>) =
     Some ((init_ai 1 4)\<lparr>mines := {|(0, 3)|}, safes := {||},
       knowledge := [\<lparr>cells = {|(0, 1), (0, 2)|}, count = 1\<rparr>,
                     \<lparr>cells = {|(0, 1), (0, 2)|}, count = 1\<rparr>, \<lparr>cells = {||}, count = 0\<rparr>]\<rparr>) \<and>
   add_knowledge (init_ai 2 2) (0, 0) 2 = Some square1 \<and>
   closure_pass square1 = (square1, False) \<and> closure square1 = Some square1"
proof -
  have d: "distinct [(0, 1), (0, 2), (0, 3 :: int) :: cell]" by simp
  note c = s1_closure[OF d, of "init_ai 1 4"]
  from closure_idempotent[of "scenario1 (0, 1) (0, 2) (0, 3) (init_ai 1 4)"] c
    closure_idempotent[of "init_ai 2 2" square1 "(0, 0)" 2] sq_call1
  show ?thesis by simp
qed

text \<open>
  C10: \<open>make_safe_move\<close> and \<open>make_random_move\<close> are queries: whatever they return, the
  agent state afterwards is the state before (\<open>moves_made\<close>, \<open>safes\<close>, \<open>mines\<close> and the
  sentence list with every sentence's cells and count).
\<close>

theorem moves_read_only:
  "(make_safe_move s (r, s') \<longrightarrow> s' = s) \<and> (make_random_move s (r, s') \<longrightarrow> s' = s)"
  by (simp add: make_safe_move_def make_random_move_def)

theorem moves_read_only_witness:
  "make_safe_move ((init_ai 1 2)\<lparr>safes := {|(0, 1)|}\<rparr>) (Some (0, 1), (init_ai 1 2)\<lparr>safes := {|(0, 1)|}\<rparr>) \<and>
   make_random_move ((init_ai 1 2)\<lparr>safes := {|(0, 1)|}\<rparr>) (Some (0, 0), (init_ai 1 2)\<lparr>safes := {|(0, 1)|}\<rparr>) \<and>
   \<not> make_safe_move ((init_ai 1 2)\<lparr>safes := {|(0, 1)|}\<rparr>) (Some (0, 1), init_ai 1 2) \<and>
   \<not> make_random_move ((init_ai 1 2)\<lparr>safes := {|(0, 1)|}\<rparr>) (Some (0, 0), init_ai 1 2)"
proof -
  have ne: "init_ai 1 2 \<noteq> (init_ai 1 2)\<lparr>safes := {|(0, 1)|}\<rparr>"
    by (simp add: init_ai_def fempty_not_finsert)
  have "make_safe_move ((init_ai 1 2)\<lparr>safes := {|(0, 1)|}\<rparr>) (Some (0, 1), (init_ai 1 2)\<lparr>safes := {|(0, 1)|}\<rparr>)"
    by (simp add: make_safe_move_def init_ai_def)
  moreover have "make_random_move ((init_ai 1 2)\<lparr>safes := {|(0, 1)|}\<rparr>) (Some (0, 0), (init_ai 1 2)\<lparr>safes := {|(0, 1)|}\<rparr>)"
    by (simp add: make_random_move_def choices_def all_moves_iff init_ai_def)
  ultimately show ?thesis
    using ne moves_read_only[of "(init_ai 1 2)\<lparr>safes := {|(0, 1)|}\<rparr>" "Some (0, 1)" "init_ai 1 2"]
      moves_read_only[of "(init_ai 1 2)\<lparr>safes := {|(0, 1)|}\<rparr>" "Some (0, 0)" "init_ai 1 2"]
    by blast
qed

end
